theory Spec2Isabelle
  imports Complex_Main "HOL-Library.Sublist"
begin

section \<open>RoboDibuix: the command tree and its interpreter\<close>

text \<open>
  A shallow embedding of the command-tree editor and of the execution engine of the
  application component (\<^verbatim>\<open>App\<close>), together with the types and constants it imports.

  Conventions of the embedding.
  \<^item> A JavaScript \<^verbatim>\<open>number\<close> that holds a coordinate or an angle is a \<^typ>\<open>real\<close>:
    the rounding of IEEE doubles is not modelled, \<^verbatim>\<open>Math.cos\<close>, \<^verbatim>\<open>Math.sin\<close> and
    \<^verbatim>\<open>Math.PI\<close> are \<^const>\<open>cos\<close>, \<^const>\<open>sin\<close> and \<^const>\<open>pi\<close>.
  \<^item> The \<^verbatim>\<open>value\<close> of a command is an \<^typ>\<open>int\<close>: the editor creates it as 1, 2 or 90
    and replaces it by \<^verbatim>\<open>parseInt(...) || 0\<close> only.
  \<^item> An optional field (\<^verbatim>\<open>children?: Command[]\<close>) is an \<^typ>\<open>'a option\<close>; \<^verbatim>\<open>undefined\<close>
    is \<^const>\<open>None\<close>. An array is truthy even when empty, so \<^verbatim>\<open>if (cmd.children)\<close> asks
    whether the field is \<^const>\<open>Some\<close> list.
  \<^item> React state and the \<^verbatim>\<open>stopRef\<close> reference are fields of one record that every
    handler takes and returns; a state setter is a record update.
  \<^item> Sound playback has no effect on that state and is left out.
\<close>

subsection \<open>Types\<close>

datatype CommandType = FORWARD | BACKWARD | TURN_RIGHT | TURN_LEFT | REPEAT

text \<open>
  The fields \<^verbatim>\<open>id\<close>, \<^verbatim>\<open>type\<close>, \<^verbatim>\<open>value\<close>, \<^verbatim>\<open>children\<close> of the interface \<^verbatim>\<open>Command\<close>.
\<close>

datatype Command =
  Command (cmd_id: string) (cmd_type: CommandType) (cmd_value: int)
          (children: "Command list option")

text \<open>
  The fields \<^verbatim>\<open>x\<close>, \<^verbatim>\<open>y\<close>, \<^verbatim>\<open>angle\<close>, \<^verbatim>\<open>penDown\<close> of \<^verbatim>\<open>RobotState\<close> and
  \<^verbatim>\<open>x\<close>, \<^verbatim>\<open>y\<close> of \<^verbatim>\<open>Point\<close>.
\<close>

record RobotState =
  rx :: real
  ry :: real
  angle :: real
  penDown :: bool

record Point =
  px :: real
  py :: real

subsection \<open>Constants\<close>

definition GRID_SIZE :: real where
  "GRID_SIZE = 40"

definition CANVAS_WIDTH :: real where
  "CANVAS_WIDTH = 800"

definition CANVAS_HEIGHT :: real where
  "CANVAS_HEIGHT = 600"

definition START_X :: real where
  "START_X = CANVAS_WIDTH / 2"

definition START_Y :: real where
  "START_Y = CANVAS_HEIGHT / 2"

definition START_ANGLE :: real where
  "START_ANGLE = - 90"

definition toRad :: "real \<Rightarrow> real" where
  "toRad deg = (deg * pi) / 180"

subsection \<open>Application state\<close>

text \<open>
  The first six fields are the state of the component: four \<^verbatim>\<open>useState\<close> cells (the
  program, the active container, the robot, the path), the \<^verbatim>\<open>isPlaying\<close> cell and the
  \<^verbatim>\<open>stopRef\<close> reference. The last two are instrumentation: \<open>elapsed\<close> counts the timer
  delays that have been awaited, and \<open>published\<close> lists every value handed to
  \<^verbatim>\<open>setRobotState\<close>, oldest first (what the renderer is shown, in order).
\<close>

record AppState =
  commands :: "Command list"
  activeContainerId :: "string option"
  robotState :: RobotState
  path :: "Point list"
  isPlaying :: bool
  stopRef :: bool
  elapsed :: nat
  published :: "RobotState list"

definition startRobot :: RobotState where
  "startRobot = \<lparr>rx = START_X, ry = START_Y, angle = START_ANGLE, penDown = True\<rparr>"

definition startPoint :: Point where
  "startPoint = \<lparr>px = START_X, py = START_Y\<rparr>"

text \<open>The initial values of the state cells, before any interaction.\<close>

definition initialApp :: AppState where
  "initialApp =
     \<lparr>commands = [], activeContainerId = None, robotState = startRobot,
      path = [startPoint], isPlaying = False, stopRef = False,
      elapsed = 0, published = []\<rparr>"

definition setRobotState :: "RobotState \<Rightarrow> AppState \<Rightarrow> AppState" where
  "setRobotState r s = s\<lparr>robotState := r, published := published s @ [r]\<rparr>"

definition setPath :: "(Point list \<Rightarrow> Point list) \<Rightarrow> AppState \<Rightarrow> AppState" where
  "setPath f s = s\<lparr>path := f (path s)\<rparr>"

subsection \<open>Editing the tree\<close>

lemma children_size:
  "children c = Some cs \<Longrightarrow> x \<in> set cs \<Longrightarrow> size x < size c"
  by (cases c) (auto dest: size_list_estimation' [where f = size and y = "size x"]
                     simp: less_Suc_eq_le)

lemma children_size_list:
  "children c = Some cs \<Longrightarrow> Suc (size_list size cs) < size c"
  by (cases c) auto

text \<open>
  \<^verbatim>\<open>updateTree(cmds, parentId, updateFn)\<close>. The object spread
  \<^verbatim>\<open>{ ...cmd, children: e }\<close> is the command with the same identifier, type and value
  and the children \<open>e\<close>; \<^verbatim>\<open>cmd.children || []\<close> is the list, or the empty list when the
  field is undefined.
\<close>

function updateTree ::
  "Command list \<Rightarrow> string option \<Rightarrow> (Command list \<Rightarrow> Command list) \<Rightarrow> Command list"
where
  "updateTree cmds parentId updateFn =
     (case parentId of
        None \<Rightarrow> updateFn cmds
      | Some pid \<Rightarrow>
          map (\<lambda>cmd.
            if cmd_id cmd = pid
            then Command (cmd_id cmd) (cmd_type cmd) (cmd_value cmd)
                   (Some (updateFn (case children cmd of Some cs \<Rightarrow> cs | None \<Rightarrow> [])))
            else (case children cmd of
                    Some cs \<Rightarrow>
                      Command (cmd_id cmd) (cmd_type cmd) (cmd_value cmd)
                        (Some (updateTree cs parentId updateFn))
                  | None \<Rightarrow> cmd))
            cmds)"
  by pat_completeness auto
termination
proof (relation "measure (\<lambda>(cmds, p, f). size_list size cmds)")
  show "wf (measure (\<lambda>(cmds, p, f). size_list size cmds))"
    by simp
next
  fix cmds :: "Command list" and parentId :: "string option"
    and updateFn :: "Command list \<Rightarrow> Command list" and pid c cs
  assume "c \<in> set cmds" and "children c = Some cs"
  then have "Suc (size_list size cs) < size c" and "size c \<le> size_list size cmds"
    by (simp_all add: children_size_list size_list_estimation')
  then show "((cs, parentId, updateFn), (cmds, parentId, updateFn))
      \<in> measure (\<lambda>(cmds, p, f). size_list size cmds)"
    by simp
qed

declare updateTree.simps [simp del]

text \<open>
  The body of \<^verbatim>\<open>handleAddCommand\<close>. The new command gets a fresh identifier from
  \<^verbatim>\<open>uuidv4()\<close>, here the argument \<open>uid\<close>; \<open>appendCommand newCmd\<close> is the closure
  \<^verbatim>\<open>(list) => [...list, newCmd]\<close>.
\<close>

definition newCommand :: "string \<Rightarrow> CommandType \<Rightarrow> Command" where
  "newCommand uid ty =
     Command uid ty
       (if ty = REPEAT then 2 else if ty = TURN_LEFT \<or> ty = TURN_RIGHT then 90 else 1)
       (if ty = REPEAT then Some [] else None)"

definition appendCommand :: "Command \<Rightarrow> Command list \<Rightarrow> Command list" where
  "appendCommand newCmd list = list @ [newCmd]"

definition handleAddCommand :: "string \<Rightarrow> CommandType \<Rightarrow> AppState \<Rightarrow> AppState" where
  "handleAddCommand uid ty s =
     s\<lparr>commands :=
          updateTree (commands s) (activeContainerId s) (appendCommand (newCommand uid ty))\<rparr>"

text \<open>\<^verbatim>\<open>recursiveFilter\<close> of \<^verbatim>\<open>handleRemoveCommand\<close>, for the identifier \<open>id\<close>.\<close>

function recursiveFilter :: "string \<Rightarrow> Command list \<Rightarrow> Command list" where
  "recursiveFilter ident list =
     map (\<lambda>c. Command (cmd_id c) (cmd_type c) (cmd_value c)
                 (case children c of
                    Some cs \<Rightarrow> Some (recursiveFilter ident cs)
                  | None \<Rightarrow> None))
       (filter (\<lambda>c. cmd_id c \<noteq> ident) list)"
  by pat_completeness auto
termination
proof (relation "measure (\<lambda>(ident, list). size_list size list)")
  show "wf (measure (\<lambda>(ident, list). size_list size list))"
    by simp
next
  fix ident :: string and list :: "Command list" and c cs
  assume "c \<in> set (filter (\<lambda>c. cmd_id c \<noteq> ident) list)" and ch: "children c = Some cs"
  then have "c \<in> set list"
    by simp
  with ch have "Suc (size_list size cs) < size c" and "size c \<le> size_list size list"
    by (simp_all add: children_size_list size_list_estimation')
  then show "((ident, cs), (ident, list)) \<in> measure (\<lambda>(ident, list). size_list size list)"
    by simp
qed

declare recursiveFilter.simps [simp del]

definition handleRemoveCommand :: "string \<Rightarrow> AppState \<Rightarrow> AppState" where
  "handleRemoveCommand ident s = s\<lparr>commands := recursiveFilter ident (commands s)\<rparr>"

text \<open>The identifiers that occur in a command and below it, and in a program.\<close>

fun ids :: "Command \<Rightarrow> string set" where
  "ids (Command i t v ch) =
     insert i (case ch of Some cs \<Rightarrow> \<Union> (ids ` set cs) | None \<Rightarrow> {})"

definition programIds :: "Command list \<Rightarrow> string set" where
  "programIds p = \<Union> (ids ` set p)"

subsection \<open>Resetting and stopping\<close>

definition resetPosition :: "AppState \<Rightarrow> AppState" where
  "resetPosition s = setPath (\<lambda>prev. [startPoint]) (setRobotState startRobot s)"

definition handleStop :: "AppState \<Rightarrow> AppState" where
  "handleStop s = s\<lparr>stopRef := True, isPlaying := False\<rparr>"

definition handleClearAll :: "AppState \<Rightarrow> AppState" where
  "handleClearAll s =
     (setRobotState startRobot (setPath (\<lambda>prev. [startPoint]) (s\<lparr>commands := []\<rparr>)))
       \<lparr>activeContainerId := None, isPlaying := False\<rparr>"

subsection \<open>The execution engine, one call at a time\<close>

text \<open>
  \<^verbatim>\<open>executeCommand\<close> and \<^verbatim>\<open>runSequence\<close> are asynchronous: each
  \<^verbatim>\<open>await new Promise(resolve => setTimeout(resolve, ANIMATION_DELAY))\<close> hands control
  to the event loop, and a click on the stop button is handled there (a click is a task
  of the event loop, so it cannot run between two steps that no timer separates).
  The argument \<open>stopClicked\<close> is the schedule of those clicks: \<open>stopClicked k\<close> says
  that \<^verbatim>\<open>handleStop\<close> runs while the delay number \<open>k\<close> (counted by \<open>elapsed\<close>) is
  awaited. With it the engine is a function from the state at the call to the state at
  the return.
\<close>

definition delay :: "(nat \<Rightarrow> bool) \<Rightarrow> AppState \<Rightarrow> AppState" where
  "delay stopClicked s =
     (let s' = s\<lparr>elapsed := elapsed s + 1\<rparr>
      in if stopClicked (elapsed s) then handleStop s' else s')"

text \<open>
  The two groups of \<^verbatim>\<open>case\<close> labels that change the robot: \<^verbatim>\<open>FORWARD\<close>/\<^verbatim>\<open>BACKWARD\<close>
  and \<^verbatim>\<open>TURN_LEFT\<close>/\<^verbatim>\<open>TURN_RIGHT\<close>. \<open>moveRobot\<close> and \<open>turnRobot\<close> are the
  assignments to \<^verbatim>\<open>nextRobot\<close>; \<open>moveCase\<close> and \<open>turnCase\<close> add the calls of the
  state setters.
\<close>

definition moveRobot :: "Command \<Rightarrow> RobotState \<Rightarrow> RobotState" where
  "moveRobot cmd nextRobot =
     (let distance = real_of_int (cmd_value cmd) * GRID_SIZE;
          direction = (if cmd_type cmd = FORWARD then 1 else - 1);
          dx = cos (toRad (angle nextRobot)) * distance * direction;
          dy = sin (toRad (angle nextRobot)) * distance * direction
      in nextRobot\<lparr>rx := rx nextRobot + dx, ry := ry nextRobot + dy\<rparr>)"

definition turnRobot :: "Command \<Rightarrow> RobotState \<Rightarrow> RobotState" where
  "turnRobot cmd nextRobot =
     (let turn = (if cmd_type cmd = TURN_RIGHT then 1 else - 1)
      in nextRobot\<lparr>angle := angle nextRobot + real_of_int (cmd_value cmd * turn)\<rparr>)"

definition moveCase :: "Command \<Rightarrow> RobotState \<Rightarrow> AppState \<Rightarrow> RobotState \<times> AppState" where
  "moveCase cmd currentRobot s =
     (let nextRobot = moveRobot cmd currentRobot
      in (nextRobot,
          setPath (\<lambda>prev. prev @ [\<lparr>px = rx nextRobot, py = ry nextRobot\<rparr>])
            (setRobotState nextRobot s)))"

definition turnCase :: "Command \<Rightarrow> RobotState \<Rightarrow> AppState \<Rightarrow> RobotState \<times> AppState" where
  "turnCase cmd currentRobot s =
     (let nextRobot = turnRobot cmd currentRobot
      in (nextRobot, setRobotState nextRobot s))"

text \<open>
  \<open>repeatLoop\<close> is the \<^verbatim>\<open>for (let i = 0; i < cmd.value; i++)\<close> loop of the
  \<^verbatim>\<open>REPEAT\<close> case, by the number of iterations still to run: the loop over an integer
  \<open>v\<close> runs \<open>nat v\<close> times (not at all when \<open>v \<le> 0\<close>) unless it breaks.
\<close>

function executeCommand ::
    "(nat \<Rightarrow> bool) \<Rightarrow> Command \<Rightarrow> RobotState \<Rightarrow> AppState \<Rightarrow> RobotState \<times> AppState"
  and repeatLoop ::
    "(nat \<Rightarrow> bool) \<Rightarrow> Command list \<Rightarrow> nat \<Rightarrow> RobotState \<Rightarrow> AppState \<Rightarrow> RobotState \<times> AppState"
  and runSequence ::
    "(nat \<Rightarrow> bool) \<Rightarrow> Command list \<Rightarrow> RobotState \<Rightarrow> AppState \<Rightarrow> RobotState \<times> AppState"
where
  "executeCommand stopClicked cmd currentRobot s =
     (if stopRef s then (currentRobot, s)
      else
        let s1 = delay stopClicked s
        in (case cmd_type cmd of
              FORWARD \<Rightarrow> moveCase cmd currentRobot s1
            | BACKWARD \<Rightarrow> moveCase cmd currentRobot s1
            | TURN_LEFT \<Rightarrow> turnCase cmd currentRobot s1
            | TURN_RIGHT \<Rightarrow> turnCase cmd currentRobot s1
            | REPEAT \<Rightarrow>
                (case children cmd of
                   Some cs \<Rightarrow> repeatLoop stopClicked cs (nat (cmd_value cmd)) currentRobot s1
                 | None \<Rightarrow> (currentRobot, s1))))"
| "repeatLoop stopClicked cs 0 nextRobot s = (nextRobot, s)"
| "repeatLoop stopClicked cs (Suc n) nextRobot s =
     (case runSequence stopClicked cs nextRobot s of
        (nextRobot', s') \<Rightarrow>
          if stopRef s' then (nextRobot', s')
          else repeatLoop stopClicked cs n nextRobot' s')"
| "runSequence stopClicked [] currentState s = (currentState, s)"
| "runSequence stopClicked (cmd # rest) currentState s =
     (if stopRef s then (currentState, s)
      else
        (case executeCommand stopClicked cmd currentState s of
           (currentState', s') \<Rightarrow> runSequence stopClicked rest currentState' s'))"
  by pat_completeness auto
termination
  by (relation
      "measures
        [\<lambda>a. case a of
               Inl (e, cmd, r, s) \<Rightarrow> size cmd
             | Inr (Inl (e, cs, n, r, s)) \<Rightarrow> size_list size cs + 1
             | Inr (Inr (e, cs, r, s)) \<Rightarrow> size_list size cs,
         \<lambda>a. case a of
               Inl (e, cmd, r, s) \<Rightarrow> 0
             | Inr (Inl (e, cs, n, r, s)) \<Rightarrow> n
             | Inr (Inr (e, cs, r, s)) \<Rightarrow> 0]")
     (auto dest: children_size_list)

declare executeCommand.simps [simp del]

text \<open>
  \<^verbatim>\<open>handleRun\<close>: the guard, the reset, the start delay of 500 ms (during which the stop
  button is already shown), then the run of the program the handler closed over, from
  a fresh robot.
\<close>

definition handleRun :: "(nat \<Rightarrow> bool) \<Rightarrow> AppState \<Rightarrow> AppState" where
  "handleRun stopClicked s =
     (if length (commands s) = 0 then s
      else
        let s1 = resetPosition (s\<lparr>isPlaying := True, stopRef := False\<rparr>);
            s2 = delay stopClicked s1;
            initialState = \<lparr>rx = START_X, ry = START_Y, angle = START_ANGLE, penDown = True\<rparr>
        in (snd (runSequence stopClicked (commands s) initialState s2))\<lparr>isPlaying := False\<rparr>)"

subsection \<open>The traversal order and the effect of a list of leaf commands\<close>

text \<open>
  The reference the engine is measured against. \<open>leaves p\<close> unrolls the program: a
  \<^verbatim>\<open>REPEAT\<close> node stands for its children's leaves, repeated; every other node for
  itself. \<open>applyLeaf\<close> is the transition of the robot under one leaf command,
  \<open>poses\<close> the robots after each of a list of leaf commands, \<open>samples\<close> the point
  after each movement among them.
\<close>

definition isMove :: "Command \<Rightarrow> bool" where
  "isMove c = (cmd_type c = FORWARD \<or> cmd_type c = BACKWARD)"

definition applyLeaf :: "RobotState \<Rightarrow> Command \<Rightarrow> RobotState" where
  "applyLeaf r c = (if isMove c then moveRobot c r else turnRobot c r)"

function leaves :: "Command list \<Rightarrow> Command list" where
  "leaves [] = []"
| "leaves (c # rest) =
     (if cmd_type c = REPEAT
      then (case children c of
              Some cs \<Rightarrow> concat (replicate (nat (cmd_value c)) (leaves cs))
            | None \<Rightarrow> [])
      else [c]) @ leaves rest"
  by pat_completeness auto
termination
  by (relation "measure (size_list size)") (auto dest: children_size_list)

fun poses :: "RobotState \<Rightarrow> Command list \<Rightarrow> RobotState list" where
  "poses r [] = []"
| "poses r (c # cs) = applyLeaf r c # poses (applyLeaf r c) cs"

fun samples :: "RobotState \<Rightarrow> Command list \<Rightarrow> Point list" where
  "samples r [] = []"
| "samples r (c # cs) =
     (if isMove c then [\<lparr>px = rx (applyLeaf r c), py = ry (applyLeaf r c)\<rparr>] else [])
       @ samples (applyLeaf r c) cs"

text \<open>Two schedules of the stop button: never pressed, and pressed during delay \<open>n\<close>.\<close>

definition neverStopped :: "nat \<Rightarrow> bool" where
  "neverStopped k = False"

definition stoppedDuring :: "nat \<Rightarrow> nat \<Rightarrow> bool" where
  "stoppedDuring n k = (k = n)"

text \<open>
  The signed distance of a movement in the words of the specification: the value times
  the cell size, positive forwards and negative backwards.
\<close>

definition signedDistance :: "Command \<Rightarrow> real" where
  "signedDistance c =
     real_of_int (cmd_value c) * GRID_SIZE * (if cmd_type c = FORWARD then 1 else - 1)"

text \<open>
  \<open>ran r s ls res\<close>: the result \<open>res\<close> of an engine call that started with the robot
  \<open>r\<close> in the state \<open>s\<close> shows exactly the leaf commands \<open>ls\<close>, in this order: the
  robot returned, the points appended to the path and the robots published.
  \<open>covers L r s res\<close>: the call executed an initial segment of \<open>L\<close>, and all of \<open>L\<close>
  unless the stop flag is set at the return.
\<close>

definition ran :: "RobotState \<Rightarrow> AppState \<Rightarrow> Command list \<Rightarrow> RobotState \<times> AppState \<Rightarrow> bool" where
  "ran r s ls res =
     (fst res = foldl applyLeaf r ls \<and>
      path (snd res) = path s @ samples r ls \<and>
      published (snd res) = published s @ poses r ls)"

definition covers :: "Command list \<Rightarrow> RobotState \<Rightarrow> AppState \<Rightarrow> RobotState \<times> AppState \<Rightarrow> bool" where
  "covers L r s res =
     (\<exists>done. prefix done L \<and> ran r s done res \<and> (\<not> stopRef (snd res) \<longrightarrow> done = L))"

subsection \<open>Objects and their identity\<close>

text \<open>
  For the question which objects of the old program the new one shares, a command
  object is a \<open>Node\<close>: its fields and the address \<open>addr\<close> it lives at. Two nodes are the
  same object when they are equal, address included. Command objects are never
  assigned to after their creation, so the child list of a node can hold the child
  nodes themselves.

  \<^verbatim>\<open>recursiveUpdate\<close> of \<^verbatim>\<open>handleUpdateCommand\<close> is \<^verbatim>\<open>list.map\<close> over the callback
  \<open>updateOne\<close>. Both thread the next free address \<open>nxt\<close>: each object literal
  \<^verbatim>\<open>{ ...c, value }\<close> or \<^verbatim>\<open>{ ...c, children: e }\<close> allocates a new object there (before
  \<open>e\<close> is evaluated), and \<^verbatim>\<open>return c\<close> allocates nothing.
\<close>

datatype Node =
  Node (addr: nat) (node_id: string) (node_type: CommandType) (node_value: int)
       (node_children: "Node list option")

lemma node_children_size:
  "node_children c = Some cs \<Longrightarrow> Suc (size_list size cs) < size c"
  by (cases c) auto

function updateOne :: "string \<Rightarrow> int \<Rightarrow> Node \<Rightarrow> nat \<Rightarrow> Node \<times> nat"
  and recursiveUpdate :: "string \<Rightarrow> int \<Rightarrow> Node list \<Rightarrow> nat \<Rightarrow> Node list \<times> nat"
where
  "updateOne ident v c nxt =
     (if node_id c = ident
      then (Node nxt (node_id c) (node_type c) v (node_children c), Suc nxt)
      else (case node_children c of
              Some cs \<Rightarrow>
                (case recursiveUpdate ident v cs (Suc nxt) of
                   (cs', nxt') \<Rightarrow>
                     (Node nxt (node_id c) (node_type c) (node_value c) (Some cs'), nxt'))
            | None \<Rightarrow> (c, nxt)))"
| "recursiveUpdate ident v [] nxt = ([], nxt)"
| "recursiveUpdate ident v (c # list) nxt =
     (case updateOne ident v c nxt of
        (c', nxt') \<Rightarrow>
          (case recursiveUpdate ident v list nxt' of
             (list', nxt'') \<Rightarrow> (c' # list', nxt'')))"
  by pat_completeness auto
termination
  by (relation
      "measure (\<lambda>a. case a of
                    Inl (i, v, c, n) \<Rightarrow> size c
                  | Inr (i, v, list, n) \<Rightarrow> size_list size list)")
     (auto dest: node_children_size)

declare updateOne.simps [simp del]

text \<open>
  A position in a program is the list of indices that leads to a node: \<open>[i]\<close> is the
  \<open>i\<close>-th top-level node, \<open>i # q\<close> the position \<open>q\<close> among the children of that node.
  The nodes on the way from the root to the position \<open>p\<close> are those at the non-empty
  prefixes of \<open>p\<close>; \<open>idsAlong\<close> lists their identifiers.
\<close>

fun nodeAt :: "Node list \<Rightarrow> nat list \<Rightarrow> Node option" where
  "nodeAt ns [] = None"
| "nodeAt ns [i] = (if i < length ns then Some (ns ! i) else None)"
| "nodeAt ns (i # j # q) =
     (if i < length ns
      then (case node_children (ns ! i) of Some cs \<Rightarrow> nodeAt cs (j # q) | None \<Rightarrow> None)
      else None)"

fun idsAlong :: "Node list \<Rightarrow> nat list \<Rightarrow> string list" where
  "idsAlong ns [] = []"
| "idsAlong ns (i # q) =
     (if i < length ns
      then node_id (ns ! i) #
           (case node_children (ns ! i) of Some cs \<Rightarrow> idsAlong cs q | None \<Rightarrow> [])
      else [])"

subsection \<open>The execution engine as the event loop sees it\<close>

text \<open>
  Between two timers an asynchronous call is a suspended computation, and other
  handlers run while it waits. A \<open>Task\<close> is such a computation with what it closed
  over: \<open>StartDelay\<close> is \<^verbatim>\<open>handleRun\<close> awaiting its start delay, with the program of the
  render it was created in; \<open>StepDelay\<close> is \<^verbatim>\<open>executeCommand\<close> awaiting the animation
  delay, with its command, its robot and the callers that await it in turn. A caller is
  a \<open>Frame\<close>: the \<^verbatim>\<open>for ... of\<close> loop of \<^verbatim>\<open>runSequence\<close> with the commands still to
  come, or the \<^verbatim>\<open>for\<close> loop of the \<^verbatim>\<open>REPEAT\<close> case with the children and the number
  of iterations still to start. At the bottom of every stack is \<^verbatim>\<open>handleRun\<close>, whose
  last statement is \<^verbatim>\<open>setIsPlaying(false)\<close>.

  \<open>enterSequence\<close> runs \<^verbatim>\<open>runSequence\<close> from the head of its loop up to the next
  \<^verbatim>\<open>await\<close> of a timer, and \<open>returnTo\<close> hands a result to the innermost caller. (On
  entry \<^verbatim>\<open>executeCommand\<close> tests the flag that the loop of \<^verbatim>\<open>runSequence\<close> has just
  found clear, with nothing run in between: that second test never fires.) \<open>resume\<close> is
  what a task does when its timer fires. The result is the task the call is suspended
  in next, or \<open>None\<close> when \<^verbatim>\<open>handleRun\<close> has returned.
\<close>

datatype Frame = SequenceFrame "Command list" | RepeatFrame "Command list" nat

datatype Task = StartDelay "Command list" | StepDelay Command RobotState "Frame list"

fun frameWeight :: "Frame \<Rightarrow> nat" where
  "frameWeight (SequenceFrame rest) = 1"
| "frameWeight (RepeatFrame cs n) = Suc n"

function enterSequence ::
    "Command list \<Rightarrow> RobotState \<Rightarrow> Frame list \<Rightarrow> AppState \<Rightarrow> Task option \<times> AppState"
  and returnTo :: "RobotState \<Rightarrow> Frame list \<Rightarrow> AppState \<Rightarrow> Task option \<times> AppState"
where
  "enterSequence [] currentState stack s = returnTo currentState stack s"
| "enterSequence (cmd # rest) currentState stack s =
     (if stopRef s then returnTo currentState stack s
      else (Some (StepDelay cmd currentState (SequenceFrame rest # stack)), s))"
| "returnTo r [] s = (None, s\<lparr>isPlaying := False\<rparr>)"
| "returnTo r (SequenceFrame rest # stack) s = enterSequence rest r stack s"
| "returnTo r (RepeatFrame cs n # stack) s =
     (if stopRef s then returnTo r stack s
      else (case n of
              0 \<Rightarrow> returnTo r stack s
            | Suc m \<Rightarrow> enterSequence cs r (RepeatFrame cs m # stack) s))"
  by pat_completeness auto
termination
  by (relation
      "measure (\<lambda>a. case a of
                    Inl (p, r, stack, s) \<Rightarrow> 2 * sum_list (map frameWeight stack) + 1
                  | Inr (r, stack, s) \<Rightarrow> 2 * sum_list (map frameWeight stack))")
     auto

definition resume :: "Task \<Rightarrow> AppState \<Rightarrow> Task option \<times> AppState" where
  "resume t s =
     (case t of
        StartDelay cmds \<Rightarrow>
          enterSequence cmds
            \<lparr>rx = START_X, ry = START_Y, angle = START_ANGLE, penDown = True\<rparr> [] s
      | StepDelay cmd currentRobot stack \<Rightarrow>
          (case cmd_type cmd of
             FORWARD \<Rightarrow> (case moveCase cmd currentRobot s of (r, s') \<Rightarrow> returnTo r stack s')
           | BACKWARD \<Rightarrow> (case moveCase cmd currentRobot s of (r, s') \<Rightarrow> returnTo r stack s')
           | TURN_LEFT \<Rightarrow> (case turnCase cmd currentRobot s of (r, s') \<Rightarrow> returnTo r stack s')
           | TURN_RIGHT \<Rightarrow> (case turnCase cmd currentRobot s of (r, s') \<Rightarrow> returnTo r stack s')
           | REPEAT \<Rightarrow>
               (case children cmd of
                  Some cs \<Rightarrow>
                    (case nat (cmd_value cmd) of
                       0 \<Rightarrow> returnTo currentRobot stack s
                     | Suc m \<Rightarrow> enterSequence cs currentRobot (RepeatFrame cs m # stack) s)
                | None \<Rightarrow> (returnTo currentRobot stack s))))"

text \<open>
  \<open>beginRun\<close> is \<^verbatim>\<open>handleRun\<close> up to its first \<^verbatim>\<open>await\<close>. A \<open>Session\<close> is the state
  of the component together with the suspended calls, oldest timer first: the start
  delay and the animation delay are both 500 ms, so timers fire in the order they were
  set. The events are the two buttons and the timer. The run button is rendered while
  \<^verbatim>\<open>isPlaying\<close> is false and disabled while the program is empty; the stop button is
  rendered while \<^verbatim>\<open>isPlaying\<close> is true.
\<close>

definition beginRun :: "AppState \<Rightarrow> Task option \<times> AppState" where
  "beginRun s =
     (if length (commands s) = 0 then (None, s)
      else (Some (StartDelay (commands s)),
            resetPosition (s\<lparr>isPlaying := True, stopRef := False\<rparr>)))"

record Session =
  app :: AppState
  pending :: "Task list"

datatype Event = ClickRun | ClickStop | TimerFires

fun enqueue :: "Task option \<Rightarrow> Task list \<Rightarrow> Task list" where
  "enqueue None q = q"
| "enqueue (Some t) q = q @ [t]"

fun react :: "Event \<Rightarrow> Session \<Rightarrow> Session" where
  "react ClickRun m =
     (if isPlaying (app m) \<or> length (commands (app m)) = 0 then m
      else (case beginRun (app m) of
              (t, s') \<Rightarrow> \<lparr>app = s', pending = enqueue t (pending m)\<rparr>))"
| "react ClickStop m =
     (if isPlaying (app m) then m\<lparr>app := handleStop (app m)\<rparr> else m)"
| "react TimerFires m =
     (case pending m of
        [] \<Rightarrow> m
      | t # q \<Rightarrow>
          (case resume t ((app m)\<lparr>elapsed := elapsed (app m) + 1\<rparr>) of
             (t', s') \<Rightarrow> \<lparr>app = s', pending = enqueue t' q\<rparr>))"

fun reactAll :: "Event list \<Rightarrow> Session \<Rightarrow> Session" where
  "reactAll [] m = m"
| "reactAll (ev # evs) m = reactAll evs (react ev m)"

text \<open>
  One run on its own, seen from the event loop: \<open>drive\<close> lets the delay of the
  pending task pass (with the stop button pressed or not, as the schedule says), resumes
  the task, and goes on with the task it gets, at most \<open>k\<close> times. \<open>reaches\<close> says
  that a suspended call ends, and in which state.
\<close>

fun drive :: "nat \<Rightarrow> (nat \<Rightarrow> bool) \<Rightarrow> Task \<Rightarrow> AppState \<Rightarrow> AppState option" where
  "drive 0 e t s = None"
| "drive (Suc k) e t s =
     (case resume t (delay e s) of
        (None, s') \<Rightarrow> Some s'
      | (Some t', s') \<Rightarrow> drive k e t' s')"

definition finish :: "nat \<Rightarrow> (nat \<Rightarrow> bool) \<Rightarrow> Task option \<times> AppState \<Rightarrow> AppState option" where
  "finish k e x = (case x of (None, s) \<Rightarrow> Some s | (Some t, s) \<Rightarrow> drive k e t s)"

definition reaches :: "(nat \<Rightarrow> bool) \<Rightarrow> Task option \<times> AppState \<Rightarrow> AppState \<Rightarrow> bool" where
  "reaches e x final = (\<exists>k. finish k e x = Some final)"

text \<open>
  A session in which a run has been stopped but has not ended: the program has two
  movements, the run button is clicked, the start delay elapses, and the stop button
  is clicked while the first command awaits its delay.
\<close>

definition stoppedSession :: Session where
  "stoppedSession =
     reactAll [ClickRun, TimerFires, ClickStop]
       \<lparr>app = initialApp\<lparr>commands :=
                 [Command ''f'' FORWARD 1 None, Command ''g'' FORWARD 1 None]\<rparr>,
        pending = []\<rparr>"

section \<open>Properties of the tree editor\<close>

subsection \<open>Unfolding the editor functions on a list\<close>

lemma recursiveFilter_Nil [simp]: "recursiveFilter i [] = []"
  by (subst recursiveFilter.simps) simp

lemma recursiveFilter_Cons [simp]:
  "recursiveFilter i (c # list) =
     (if cmd_id c \<noteq> i
      then [Command (cmd_id c) (cmd_type c) (cmd_value c)
              (case children c of Some cs \<Rightarrow> Some (recursiveFilter i cs) | None \<Rightarrow> None)]
      else []) @ recursiveFilter i list"
  by (subst recursiveFilter.simps, subst (2) recursiveFilter.simps) simp

lemma updateTree_None [simp]: "updateTree cmds None f = f cmds"
  by (subst updateTree.simps) simp

lemma updateTree_Nil [simp]: "updateTree [] (Some pid) f = []"
  by (subst updateTree.simps) simp

lemma updateTree_Cons [simp]:
  "updateTree (c # cmds) (Some pid) f =
     (if cmd_id c = pid
      then Command (cmd_id c) (cmd_type c) (cmd_value c)
             (Some (f (case children c of Some cs \<Rightarrow> cs | None \<Rightarrow> [])))
      else (case children c of
              Some cs \<Rightarrow>
                Command (cmd_id c) (cmd_type c) (cmd_value c)
                  (Some (updateTree cs (Some pid) f))
            | None \<Rightarrow> c)) # updateTree cmds (Some pid) f"
  by (subst updateTree.simps, subst (3) updateTree.simps) simp

subsection \<open>Identifiers\<close>

lemma programIds_simps [simp]:
  "programIds [] = {}"
  "programIds (c # cs) = ids c \<union> programIds cs"
  by (simp_all add: programIds_def)

lemma ids_children:
  "children c = Some cs \<Longrightarrow> ids c = insert (cmd_id c) (programIds cs)"
  by (cases c) (simp add: programIds_def)

lemma cmd_id_in_ids: "cmd_id c \<in> ids c"
  by (cases c) simp

lemma programIds_member:
  "c \<in> set p \<Longrightarrow> ids c \<subseteq> programIds p"
  by (auto simp: programIds_def)

subsection \<open>An identifier that names no node\<close>

lemma recursiveFilter_absent:
  "ident \<notin> programIds list \<Longrightarrow> recursiveFilter ident list = list"
proof (induction ident list rule: recursiveFilter.induct)
  case (1 ident list)
  have "\<forall>c\<in>set list. cmd_id c \<noteq> ident"
    using "1.prems" cmd_id_in_ids programIds_member by fastforce
  then have keep: "filter (\<lambda>c. cmd_id c \<noteq> ident) list = list"
    by simp
  have same: "Command (cmd_id c) (cmd_type c) (cmd_value c)
                 (case children c of Some cs \<Rightarrow> Some (recursiveFilter ident cs) | None \<Rightarrow> None) = c"
    if c: "c \<in> set list" for c
  proof (cases "children c")
    case None
    then show ?thesis by (cases c) simp
  next
    case (Some cs)
    from c "1.prems" programIds_member [of c list] have "ident \<notin> ids c"
      by auto
    with Some have "ident \<notin> programIds cs"
      by (simp add: ids_children)
    with c Some keep have "recursiveFilter ident cs = cs"
      using "1.IH" [of c cs] by simp
    with Some show ?thesis by (cases c) simp
  qed
  show ?case
    by (subst recursiveFilter.simps) (simp add: keep same map_idI)
qed

lemma updateTree_absent:
  "pid \<notin> programIds cmds \<Longrightarrow> updateTree cmds (Some pid) f = cmds"
proof (induction cmds "Some pid" f rule: updateTree.induct)
  case (1 cmds f)
  have same: "(if cmd_id c = pid
            then Command (cmd_id c) (cmd_type c) (cmd_value c)
                   (Some (f (case children c of Some cs \<Rightarrow> cs | None \<Rightarrow> [])))
            else (case children c of
                    Some cs \<Rightarrow>
                      Command (cmd_id c) (cmd_type c) (cmd_value c)
                        (Some (updateTree cs (Some pid) f))
                  | None \<Rightarrow> c)) = c"
    if c: "c \<in> set cmds" for c
  proof -
    from c "1.prems" programIds_member [of c cmds] have notin: "pid \<notin> ids c"
      by auto
    with cmd_id_in_ids [of c] have neq: "cmd_id c \<noteq> pid"
      by auto
    show ?thesis
    proof (cases "children c")
      case None
      with neq show ?thesis by simp
    next
      case (Some cs)
      with notin have "pid \<notin> programIds cs"
        by (simp add: ids_children)
      with "1.hyps" [OF refl c neq Some] have "updateTree cs (Some pid) f = cs"
        by simp
      with Some neq show ?thesis by (cases c) simp
    qed
  qed
  show ?case
    by (subst updateTree.simps) (simp add: same map_idI)
qed

text \<open>
  Claim C9. Removing an identifier that occurs nowhere in the program is a silent
  no-op: \<^verbatim>\<open>recursiveFilter\<close> rebuilds a program equal to its input, and the handler
  leaves the whole application state as it was.
\<close>

theorem remove_unknown_id_is_noop:
  "ident \<notin> programIds (commands s) \<Longrightarrow>
     recursiveFilter ident (commands s) = commands s \<and> handleRemoveCommand ident s = s"
  by (simp add: recursiveFilter_absent handleRemoveCommand_def)

theorem remove_unknown_id_is_noop_witness:
  "''zz'' \<notin> programIds
       [Command ''a'' FORWARD 1 None,
        Command ''r'' REPEAT 2 (Some [Command ''b'' TURN_LEFT 90 None])] \<and>
   recursiveFilter ''zz''
       [Command ''a'' FORWARD 1 None,
        Command ''r'' REPEAT 2 (Some [Command ''b'' TURN_LEFT 90 None])] =
       [Command ''a'' FORWARD 1 None,
        Command ''r'' REPEAT 2 (Some [Command ''b'' TURN_LEFT 90 None])]"
  using remove_unknown_id_is_noop
    [of "''zz''"
        "initialApp\<lparr>commands :=
           [Command ''a'' FORWARD 1 None,
            Command ''r'' REPEAT 2 (Some [Command ''b'' TURN_LEFT 90 None])]\<rparr>"]
  by (simp del: recursiveFilter_Cons)

text \<open>
  Claim C2, as stated, fails: \<^verbatim>\<open>updateTree\<close> compares identifiers only and never
  looks at the type of the node it finds. Given the identifier of a \<^verbatim>\<open>FORWARD\<close> node
  as container, \<^verbatim>\<open>cmd.children || []\<close> turns the absent child list into an empty one
  and the node comes back with the new command as its child.
\<close>

theorem insert_into_leaf_counterexample:
  "updateTree [Command ''a'' FORWARD 1 None] (Some ''a'')
       (appendCommand (Command ''n'' TURN_LEFT 90 None)) =
     [Command ''a'' FORWARD 1 (Some [Command ''n'' TURN_LEFT 90 None])] \<and>
   commands (handleAddCommand ''n'' TURN_LEFT
       (initialApp\<lparr>commands := [Command ''a'' FORWARD 1 None],
                    activeContainerId := Some ''a''\<rparr>)) =
     [Command ''a'' FORWARD 1 (Some [Command ''n'' TURN_LEFT 90 None])]"
  by (simp add: appendCommand_def handleAddCommand_def newCommand_def)

text \<open>
  Claim C2, amended. When the container identifier is not null and names no node of
  the program at all, the insertion is a no-op: the program returned equals the input,
  so the command is appended nowhere and no node gains or loses children. The
  identifier of an existing node that is not a \<^verbatim>\<open>REPEAT\<close> node is outside this
  statement: \<^verbatim>\<open>updateTree\<close> has no test of the type, and the editor only ever makes a
  \<^verbatim>\<open>REPEAT\<close> node the active container (the button that sets it is rendered for
  \<^verbatim>\<open>REPEAT\<close> blocks only).
\<close>

theorem insert_unknown_container_is_noop:
  "activeContainerId s = Some pid \<Longrightarrow> pid \<notin> programIds (commands s) \<Longrightarrow>
     updateTree (commands s) (Some pid) (appendCommand c) = commands s \<and>
     handleAddCommand uid ty s = s"
  by (simp add: updateTree_absent handleAddCommand_def)

theorem insert_unknown_container_is_noop_witness:
  "''zz'' \<notin> programIds [Command ''a'' FORWARD 1 None, Command ''r'' REPEAT 2 (Some [])] \<and>
   handleAddCommand ''n'' FORWARD
       (initialApp\<lparr>commands := [Command ''a'' FORWARD 1 None, Command ''r'' REPEAT 2 (Some [])],
                    activeContainerId := Some ''zz''\<rparr>) =
     initialApp\<lparr>commands := [Command ''a'' FORWARD 1 None, Command ''r'' REPEAT 2 (Some [])],
                 activeContainerId := Some ''zz''\<rparr>"
  using insert_unknown_container_is_noop
    [of "initialApp\<lparr>commands := [Command ''a'' FORWARD 1 None, Command ''r'' REPEAT 2 (Some [])],
                     activeContainerId := Some ''zz''\<rparr>"
        "''zz''" "Command ''n'' FORWARD 1 None" "''n''" FORWARD]
  by simp

section \<open>Properties of the update and the objects it shares\<close>

lemma counter_mono:
  "nxt \<le> snd (updateOne ident v c nxt)"
  "nxt \<le> snd (recursiveUpdate ident v list nxt)"
proof (induction ident v c nxt and ident v list nxt rule: updateOne_recursiveUpdate.induct)
  case (1 ident v c nxt)
  then show ?case
    by (auto simp: updateOne.simps split: option.splits prod.splits)
next
  case (2 ident v nxt)
  show ?case by simp
next
  case (3 ident v c list nxt)
  then show ?case
    by (fastforce split: prod.splits)
qed

lemma recursiveUpdate_length:
  "length (fst (recursiveUpdate ident v list nxt)) = length list"
proof (induction list arbitrary: nxt)
  case Nil
  show ?case by simp
next
  case (Cons c list)
  obtain c' n1 where one: "updateOne ident v c nxt = (c', n1)"
    by (cases "updateOne ident v c nxt")
  obtain list' n2 where rest: "recursiveUpdate ident v list n1 = (list', n2)"
    by (cases "recursiveUpdate ident v list n1")
  from Cons.IH [of n1] one rest show ?case by simp
qed

lemma recursiveUpdate_nth:
  "i < length list \<Longrightarrow>
     \<exists>n\<ge>nxt. fst (recursiveUpdate ident v list nxt) ! i = fst (updateOne ident v (list ! i) n)"
proof (induction list arbitrary: nxt i)
  case Nil
  then show ?case by simp
next
  case (Cons c list)
  obtain c' n1 where one: "updateOne ident v c nxt = (c', n1)"
    by (cases "updateOne ident v c nxt")
  obtain list' n2 where rest: "recursiveUpdate ident v list n1 = (list', n2)"
    by (cases "recursiveUpdate ident v list n1")
  show ?case
  proof (cases i)
    case 0
    with one rest show ?thesis
      by (intro exI [of _ nxt]) simp
  next
    case (Suc j)
    with Cons.prems have "j < length list" by simp
    from Cons.IH [OF this, of n1] obtain n where
      n: "n1 \<le> n" "fst (recursiveUpdate ident v list n1) ! j = fst (updateOne ident v (list ! j) n)"
      by blast
    from counter_mono(1) [of nxt ident v c] one have "nxt \<le> n1" by simp
    with n Suc one rest show ?thesis
      by (intro exI [of _ n]) simp
  qed
qed

lemma updateOne_leaf:
  "node_children c = None \<Longrightarrow> node_id c \<noteq> ident \<Longrightarrow> updateOne ident v c n = (c, n)"
  by (simp add: updateOne.simps)

lemma updateOne_target:
  "node_id c = ident \<Longrightarrow>
     fst (updateOne ident v c n) = Node n ident (node_type c) v (node_children c)"
  by (simp add: updateOne.simps)

lemma updateOne_container:
  "node_id c \<noteq> ident \<Longrightarrow> node_children c = Some cs \<Longrightarrow>
     fst (updateOne ident v c n) =
       Node n (node_id c) (node_type c) (node_value c)
         (Some (fst (recursiveUpdate ident v cs (Suc n))))"
  by (simp add: updateOne.simps split: prod.splits)

lemma nodeAt_below:
  "nodeAt ns (i # j # q) = Some c \<Longrightarrow>
     i < length ns \<and> (\<exists>cs. node_children (ns ! i) = Some cs \<and> nodeAt cs (j # q) = Some c)"
  by (auto split: if_splits option.splits)

lemma leaf_shared:
  "nodeAt list q = Some c \<Longrightarrow> node_children c = None \<Longrightarrow> node_id c \<noteq> ident \<Longrightarrow>
     nodeAt (fst (recursiveUpdate ident v list nxt)) q = Some c"
proof (induction list q arbitrary: nxt rule: nodeAt.induct)
  case (1 ns)
  then show ?case by simp
next
  case (2 ns i)
  from "2.prems"(1) have i: "i < length ns" and c: "ns ! i = c"
    by (auto split: if_splits)
  from recursiveUpdate_nth [OF i, of nxt ident v] obtain n where
    "fst (recursiveUpdate ident v ns nxt) ! i = fst (updateOne ident v (ns ! i) n)"
    by blast
  with c "2.prems"(2,3) i show ?case
    by (simp add: updateOne_leaf recursiveUpdate_length)
next
  case (3 ns i j q)
  from nodeAt_below [OF "3.prems"(1)] obtain cs where
    i: "i < length ns" and cs: "node_children (ns ! i) = Some cs"
    and at: "nodeAt cs (j # q) = Some c"
    by blast
  from recursiveUpdate_nth [OF i, of nxt ident v] obtain n where
    n: "fst (recursiveUpdate ident v ns nxt) ! i = fst (updateOne ident v (ns ! i) n)"
    by blast
  show ?case
  proof (cases "node_id (ns ! i) = ident")
    case True
    with n cs at i show ?thesis
      by (simp add: updateOne_target recursiveUpdate_length)
  next
    case False
    from "3.IH" [OF i cs at "3.prems"(2,3), of "Suc n"]
    have "nodeAt (fst (recursiveUpdate ident v cs (Suc n))) (j # q) = Some c" .
    with n cs i False show ?thesis
      by (simp add: updateOne_container recursiveUpdate_length)
  qed
qed

lemma node_rebuilt:
  "nodeAt list q = Some c \<Longrightarrow> ident \<notin> set (idsAlong list (butlast q)) \<Longrightarrow>
     \<exists>n\<ge>nxt. nodeAt (fst (recursiveUpdate ident v list nxt)) q =
        Some (fst (updateOne ident v c n))"
proof (induction list q arbitrary: nxt rule: nodeAt.induct)
  case (1 ns)
  then show ?case by simp
next
  case (2 ns i)
  from "2.prems"(1) have i: "i < length ns" and c: "ns ! i = c"
    by (auto split: if_splits)
  from recursiveUpdate_nth [OF i, of nxt ident v] obtain n where
    "nxt \<le> n" "fst (recursiveUpdate ident v ns nxt) ! i = fst (updateOne ident v (ns ! i) n)"
    by blast
  with c i show ?case
    by (intro exI [of _ n]) (simp add: recursiveUpdate_length)
next
  case (3 ns i j q)
  from nodeAt_below [OF "3.prems"(1)] obtain cs where
    i: "i < length ns" and cs: "node_children (ns ! i) = Some cs"
    and at: "nodeAt cs (j # q) = Some c"
    by blast
  from "3.prems"(2) i cs have other: "node_id (ns ! i) \<noteq> ident"
    and below: "ident \<notin> set (idsAlong cs (butlast (j # q)))"
    by auto
  from recursiveUpdate_nth [OF i, of nxt ident v] obtain n where
    n: "nxt \<le> n" "fst (recursiveUpdate ident v ns nxt) ! i = fst (updateOne ident v (ns ! i) n)"
    by blast
  from "3.IH" [OF i cs at below, of "Suc n"] obtain n' where
    n': "Suc n \<le> n'"
      "nodeAt (fst (recursiveUpdate ident v cs (Suc n))) (j # q) = Some (fst (updateOne ident v c n'))"
    by blast
  from n n' cs i other show ?case
    by (intro exI [of _ n']) (simp add: updateOne_container recursiveUpdate_length)
qed

text \<open>
  Claim C1, as stated, fails: the callback of \<^verbatim>\<open>recursiveUpdate\<close> answers
  \<^verbatim>\<open>{ ...c, children: recursiveUpdate(c.children) }\<close> for every node that has a child
  list, whether the updated node is below it or not. In the program below the
  \<^verbatim>\<open>REPEAT\<close> node at position \<open>[0]\<close> is not on the way to the updated node at
  position \<open>[1]\<close>, the objects in use have the addresses 0 and 1, and after the update
  position \<open>[0]\<close> holds a new object at address 2.
\<close>

theorem update_copies_node_off_the_path_counterexample:
  "nodeAt [Node 0 ''r'' REPEAT 2 (Some []), Node 1 ''f'' FORWARD 1 None] [1] =
     Some (Node 1 ''f'' FORWARD 1 None) \<and>
   nodeAt [Node 0 ''r'' REPEAT 2 (Some []), Node 1 ''f'' FORWARD 1 None] [0] =
     Some (Node 0 ''r'' REPEAT 2 (Some [])) \<and>
   \<not> prefix [0] [1::nat] \<and>
   nodeAt (fst (recursiveUpdate ''f'' 5
       [Node 0 ''r'' REPEAT 2 (Some []), Node 1 ''f'' FORWARD 1 None] 2)) [0] =
     Some (Node 2 ''r'' REPEAT 2 (Some [])) \<and>
   addr (Node 2 ''r'' REPEAT 2 (Some [])) \<noteq> addr (Node 0 ''r'' REPEAT 2 (Some []))"
  by (simp add: updateOne.simps)

text \<open>
  Claim C1, amended. Let \<open>c\<close> be the node at a position \<open>q\<close> of the program, and let the
  objects in use lie below the address \<open>nxt\<close>.
  \<^item> If \<open>c\<close> has no child list and is not the updated node, the new program has the
    same object \<open>c\<close> at \<open>q\<close>.
  \<^item> If no node above \<open>c\<close> carries the updated identifier, and \<open>c\<close> is the updated node
    or has a child list (on the way to the updated node or not), the new program has a
    new object at \<open>q\<close>, at an address from \<open>nxt\<close> on; it has the identifier and type of
    \<open>c\<close>, the new value if \<open>c\<close> is the updated node and the value of \<open>c\<close> otherwise, and
    in the first case the very child list of \<open>c\<close>.
\<close>

theorem update_shares_leaves_and_copies_containers:
  assumes "nodeAt program q = Some c"
  shows "(node_children c = None \<and> node_id c \<noteq> ident \<longrightarrow>
            nodeAt (fst (recursiveUpdate ident v program nxt)) q = Some c) \<and>
         (ident \<notin> set (idsAlong program (butlast q)) \<and>
          (node_id c = ident \<or> node_children c \<noteq> None) \<longrightarrow>
            (\<exists>c'. nodeAt (fst (recursiveUpdate ident v program nxt)) q = Some c' \<and>
                  nxt \<le> addr c' \<and> node_id c' = node_id c \<and> node_type c' = node_type c \<and>
                  node_value c' = (if node_id c = ident then v else node_value c) \<and>
                  (node_id c = ident \<longrightarrow> node_children c' = node_children c)))"
proof (intro conjI impI)
  assume "node_children c = None \<and> node_id c \<noteq> ident"
  with assms show "nodeAt (fst (recursiveUpdate ident v program nxt)) q = Some c"
    by (simp add: leaf_shared)
next
  assume a: "ident \<notin> set (idsAlong program (butlast q)) \<and>
          (node_id c = ident \<or> node_children c \<noteq> None)"
  with node_rebuilt [OF assms, of ident nxt v] obtain n where
    n: "nxt \<le> n" "nodeAt (fst (recursiveUpdate ident v program nxt)) q =
        Some (fst (updateOne ident v c n))"
    by blast
  show "\<exists>c'. nodeAt (fst (recursiveUpdate ident v program nxt)) q = Some c' \<and>
                  nxt \<le> addr c' \<and> node_id c' = node_id c \<and> node_type c' = node_type c \<and>
                  node_value c' = (if node_id c = ident then v else node_value c) \<and>
                  (node_id c = ident \<longrightarrow> node_children c' = node_children c)"
  proof (cases "node_id c = ident")
    case True
    with n show ?thesis
      by (intro exI [of _ "fst (updateOne ident v c n)"]) (simp add: updateOne_target)
  next
    case False
    with a obtain cs where "node_children c = Some cs" by auto
    with False n show ?thesis
      by (intro exI [of _ "fst (updateOne ident v c n)"]) (simp add: updateOne_container)
  qed
qed

theorem update_shares_leaves_and_copies_containers_witness:
  "nodeAt [Node 0 ''r'' REPEAT 2 (Some [Node 1 ''g'' TURN_LEFT 90 None]),
           Node 2 ''f'' FORWARD 1 None] [0, 0] =
     Some (Node 1 ''g'' TURN_LEFT 90 None) \<and>
   nodeAt (fst (recursiveUpdate ''f'' 5
       [Node 0 ''r'' REPEAT 2 (Some [Node 1 ''g'' TURN_LEFT 90 None]),
        Node 2 ''f'' FORWARD 1 None] 3)) [0, 0] =
     Some (Node 1 ''g'' TURN_LEFT 90 None) \<and>
   nodeAt (fst (recursiveUpdate ''f'' 5
       [Node 0 ''r'' REPEAT 2 (Some [Node 1 ''g'' TURN_LEFT 90 None]),
        Node 2 ''f'' FORWARD 1 None] 3)) [0] =
     Some (Node 3 ''r'' REPEAT 2 (Some [Node 1 ''g'' TURN_LEFT 90 None])) \<and>
   nodeAt (fst (recursiveUpdate ''f'' 5
       [Node 0 ''r'' REPEAT 2 (Some [Node 1 ''g'' TURN_LEFT 90 None]),
        Node 2 ''f'' FORWARD 1 None] 3)) [1] =
     Some (Node 4 ''f'' FORWARD 5 None)"
  using update_shares_leaves_and_copies_containers
      [of "[Node 0 ''r'' REPEAT 2 (Some [Node 1 ''g'' TURN_LEFT 90 None]),
            Node 2 ''f'' FORWARD 1 None]"
          "[0, 0]" "Node 1 ''g'' TURN_LEFT 90 None" "''f''" 5 3]
    update_shares_leaves_and_copies_containers
      [of "[Node 0 ''r'' REPEAT 2 (Some [Node 1 ''g'' TURN_LEFT 90 None]),
            Node 2 ''f'' FORWARD 1 None]"
          "[0]" "Node 0 ''r'' REPEAT 2 (Some [Node 1 ''g'' TURN_LEFT 90 None])" "''f''" 5 3]
  by (simp add: updateOne.simps)

section \<open>Properties of the execution engine\<close>

subsection \<open>The state after a delay and after a leaf command\<close>

lemma stopRef_delay:
  "stopRef (delay e s) = (stopRef s \<or> e (elapsed s))"
  by (simp add: delay_def handleStop_def Let_def)

lemma path_delay [simp]: "path (delay e s) = path s"
  by (simp add: delay_def handleStop_def Let_def)

lemma published_delay [simp]: "published (delay e s) = published s"
  by (simp add: delay_def handleStop_def Let_def)

lemma robotState_delay [simp]: "robotState (delay e s) = robotState s"
  by (simp add: delay_def handleStop_def Let_def)

lemma moveCase_fields:
  "fst (moveCase c r s) = moveRobot c r"
  "path (snd (moveCase c r s)) = path s @ [\<lparr>px = rx (moveRobot c r), py = ry (moveRobot c r)\<rparr>]"
  "published (snd (moveCase c r s)) = published s @ [moveRobot c r]"
  "stopRef (snd (moveCase c r s)) = stopRef s"
  by (simp_all add: moveCase_def setPath_def setRobotState_def Let_def)

lemma turnCase_fields:
  "fst (turnCase c r s) = turnRobot c r"
  "path (snd (turnCase c r s)) = path s"
  "published (snd (turnCase c r s)) = published s @ [turnRobot c r]"
  "stopRef (snd (turnCase c r s)) = stopRef s"
  by (simp_all add: turnCase_def setRobotState_def Let_def)

lemma moveRobot_eq:
  "moveRobot c r =
     r\<lparr>rx := rx r + cos (toRad (angle r)) * signedDistance c,
       ry := ry r + sin (toRad (angle r)) * signedDistance c\<rparr>"
  by (simp add: moveRobot_def signedDistance_def Let_def mult.assoc)

lemma path_resetPosition [simp]: "path (resetPosition s) = [startPoint]"
  by (simp add: resetPosition_def setPath_def setRobotState_def)

lemma published_resetPosition [simp]:
  "published (resetPosition s) = published s @ [startRobot]"
  by (simp add: resetPosition_def setPath_def setRobotState_def)

lemma stopRef_resetPosition [simp]: "stopRef (resetPosition s) = stopRef s"
  by (simp add: resetPosition_def setPath_def setRobotState_def)

subsection \<open>One command\<close>

lemma executeCommand_move:
  "\<not> stopRef s \<Longrightarrow> isMove c \<Longrightarrow>
     executeCommand e c r s = moveCase c r (delay e s)"
  by (auto simp: executeCommand.simps isMove_def)

lemma executeCommand_turn:
  "\<not> stopRef s \<Longrightarrow> cmd_type c = TURN_LEFT \<or> cmd_type c = TURN_RIGHT \<Longrightarrow>
     executeCommand e c r s = turnCase c r (delay e s)"
  by (auto simp: executeCommand.simps)

lemma executeCommand_repeat:
  "\<not> stopRef s \<Longrightarrow> cmd_type c = REPEAT \<Longrightarrow> children c = Some cs \<Longrightarrow>
     executeCommand e c r s = repeatLoop e cs (nat (cmd_value c)) r (delay e s)"
  by (simp add: executeCommand.simps)

subsection \<open>The stop flag, sequences and loops\<close>

lemma runSequence_stopped:
  "stopRef s \<Longrightarrow> runSequence e p r s = (r, s)"
  by (cases p) simp_all

lemma executeCommand_stopped:
  "stopRef s \<Longrightarrow> executeCommand e c r s = (r, s)"
  by (simp add: executeCommand.simps)

lemma repeatLoop_stopped:
  "stopRef s \<Longrightarrow> repeatLoop e cs n r s = (r, s)"
  by (cases n) (simp_all add: runSequence_stopped)

lemma runSequence_append:
  "runSequence e (a @ b) r s =
     (case runSequence e a r s of (r', s') \<Rightarrow> runSequence e b r' s')"
proof (induction a arbitrary: r s)
  case Nil
  show ?case by simp
next
  case (Cons c a)
  show ?case
  proof (cases "stopRef s")
    case True
    then show ?thesis by (simp add: runSequence_stopped)
  next
    case False
    then show ?thesis
      by (simp add: Cons.IH split: prod.splits)
  qed
qed

lemma repeatLoop_unrolled:
  "repeatLoop e cs n r s = runSequence e (concat (replicate n cs)) r s"
proof (induction n arbitrary: r s)
  case 0
  show ?case by simp
next
  case (Suc n)
  show ?case
    by (simp add: runSequence_append Suc.IH runSequence_stopped split: prod.splits)
qed

lemma unstopped:
  "\<forall>k. \<not> e k \<Longrightarrow> \<not> stopRef s \<Longrightarrow> \<not> stopRef (snd (executeCommand e c r s))"
  "\<forall>k. \<not> e k \<Longrightarrow> \<not> stopRef s \<Longrightarrow> \<not> stopRef (snd (repeatLoop e cs n r s))"
  "\<forall>k. \<not> e k \<Longrightarrow> \<not> stopRef s \<Longrightarrow> \<not> stopRef (snd (runSequence e p r s))"
proof (induction e c r s and e cs n r s and e p r s
    rule: executeCommand_repeatLoop_runSequence.induct)
  case (1 e cmd r s)
  from "1.prems" have run: "\<not> stopRef (delay e s)"
    by (simp add: stopRef_delay)
  show ?case
  proof (cases "cmd_type cmd = REPEAT")
    case False
    with "1.prems"(2) run show ?thesis
      by (cases "cmd_type cmd")
         (simp_all add: executeCommand.simps moveCase_fields turnCase_fields)
  next
    case rep: True
    show ?thesis
    proof (cases "children cmd")
      case None
      with "1.prems"(2) run rep show ?thesis
        by (simp add: executeCommand.simps)
    next
      case (Some cs)
      from "1.IH" [OF "1.prems"(2) refl rep Some "1.prems"(1) run]
      show ?thesis
        using "1.prems"(2) rep Some by (simp add: executeCommand.simps)
    qed
  qed
next
  case (3 e cs n r s)
  obtain r' s' where res: "runSequence e cs r s = (r', s')"
    by (cases "runSequence e cs r s")
  with "3.IH"(1) [OF "3.prems"] have run: "\<not> stopRef s'" by simp
  from "3.IH"(2) [OF res [symmetric] run "3.prems"(1) run] res run show ?case by simp
next
  case (5 e cmd rest r s)
  obtain r' s' where res: "executeCommand e cmd r s = (r', s')"
    by (cases "executeCommand e cmd r s")
  with "5.IH"(1) [OF "5.prems"(2) "5.prems"] have run: "\<not> stopRef s'" by simp
  from "5.IH"(2) [OF "5.prems"(2) res [symmetric] "5.prems"(1) run] res "5.prems"(2)
  show ?case by simp
qed simp_all

lemma never_stops:
  "\<not> stopRef s \<Longrightarrow> \<not> stopRef (snd (executeCommand neverStopped c r s))"
  "\<not> stopRef s \<Longrightarrow> \<not> stopRef (snd (repeatLoop neverStopped cs n r s))"
  "\<not> stopRef s \<Longrightarrow> \<not> stopRef (snd (runSequence neverStopped p r s))"
  by (simp_all add: unstopped neverStopped_def)

subsection \<open>The engine executes an initial segment of the traversal order\<close>

lemma samples_append:
  "samples r (a @ b) = samples r a @ samples (foldl applyLeaf r a) b"
  by (induction a arbitrary: r) simp_all

lemma poses_append:
  "poses r (a @ b) = poses r a @ poses (foldl applyLeaf r a) b"
  by (induction a arbitrary: r) simp_all

lemma prefix_samples: "prefix a b \<Longrightarrow> prefix (samples r a) (samples r b)"
  by (auto simp: prefix_def samples_append)

lemma length_samples: "length (samples r ls) = length (filter isMove ls)"
  by (induction ls arbitrary: r) simp_all

lemma length_poses: "length (poses r ls) = length ls"
  by (induction ls arbitrary: r) simp_all

lemma leaves_repeat:
  "cmd_type c = REPEAT \<Longrightarrow> children c = Some cs \<Longrightarrow>
     leaves [c] = concat (replicate (nat (cmd_value c)) (leaves cs))"
  by simp

lemma ran_Nil: "ran r s [] (r, s)"
  by (simp add: ran_def)

lemma ran_append:
  "ran r s a res1 \<Longrightarrow> ran (fst res1) (snd res1) b res2 \<Longrightarrow> ran r s (a @ b) res2"
  by (simp add: ran_def samples_append poses_append)

lemma covers_stopped: "stopRef s \<Longrightarrow> covers L r s (r, s)"
  unfolding covers_def by (rule exI [of _ "[]"]) (simp add: ran_Nil)

lemma covers_Nil: "covers [] r s (r, s)"
  unfolding covers_def by (rule exI [of _ "[]"]) (simp add: ran_Nil)

lemma covers_append:
  assumes a: "covers A r s res1"
    and b: "\<not> stopRef (snd res1) \<Longrightarrow> covers B (fst res1) (snd res1) res2"
    and c: "stopRef (snd res1) \<Longrightarrow> res2 = res1"
  shows "covers (A @ B) r s res2"
proof -
  from a obtain d1 where d1: "prefix d1 A" "ran r s d1 res1" "\<not> stopRef (snd res1) \<longrightarrow> d1 = A"
    unfolding covers_def by blast
  show ?thesis
  proof (cases "stopRef (snd res1)")
    case True
    with c have "res2 = res1" by simp
    with d1 True show ?thesis
      unfolding covers_def by (intro exI [of _ d1]) (simp add: prefix_prefix)
  next
    case False
    with d1 have A: "d1 = A" by simp
    from b False obtain d2 where d2: "prefix d2 B" "ran (fst res1) (snd res1) d2 res2"
      "\<not> stopRef (snd res2) \<longrightarrow> d2 = B"
      unfolding covers_def by blast
    from d1 d2 A show ?thesis
      unfolding covers_def by (intro exI [of _ "A @ d2"]) (auto intro: ran_append)
  qed
qed

lemma covers_leaf:
  assumes "\<not> stopRef s" "cmd_type c \<noteq> REPEAT"
  shows "covers [c] r s (executeCommand e c r s)"
proof -
  have "ran r s [c] (executeCommand e c r s)"
    using assms
    by (cases "cmd_type c")
       (simp_all add: executeCommand.simps ran_def applyLeaf_def isMove_def
          moveCase_fields turnCase_fields)
  then show ?thesis
    unfolding covers_def by (intro exI [of _ "[c]"]) simp
qed

lemma covers_delay:
  "covers L r (delay e s) res \<Longrightarrow> covers L r s res"
  by (simp add: covers_def ran_def)

lemma engine_covers:
  "covers (leaves [c]) r s (executeCommand e c r s)"
  "covers (concat (replicate n (leaves cs))) r s (repeatLoop e cs n r s)"
  "covers (leaves p) r s (runSequence e p r s)"
proof (induction e c r s and e cs n r s and e p r s
    rule: executeCommand_repeatLoop_runSequence.induct)
  case (1 e cmd r s)
  show ?case
  proof (cases "stopRef s")
    case True
    then show ?thesis by (simp add: executeCommand_stopped covers_stopped)
  next
    case run: False
    show ?thesis
    proof (cases "cmd_type cmd = REPEAT")
      case False
      with run show ?thesis by (simp add: covers_leaf)
    next
      case rep: True
      show ?thesis
      proof (cases "children cmd")
        case None
        with run rep show ?thesis
          by (auto simp add: executeCommand.simps intro: covers_delay covers_Nil)
      next
        case (Some cs)
        with run rep "1.IH" [OF run refl rep Some] show ?thesis
          by (auto simp add: executeCommand.simps intro: covers_delay)
      qed
    qed
  qed
next
  case (2 e cs r s)
  show ?case by (simp add: covers_Nil)
next
  case (3 e cs n r s)
  obtain r' s' where res: "runSequence e cs r s = (r', s')"
    by (cases "runSequence e cs r s")
  have "covers (leaves cs @ concat (replicate n (leaves cs))) r s (repeatLoop e cs (Suc n) r s)"
  proof (rule covers_append [where ?res1.0 = "(r', s')"])
    show "covers (leaves cs) r s (r', s')"
      using "3.IH"(1) res by simp
    show "covers (concat (replicate n (leaves cs))) (fst (r', s')) (snd (r', s'))
        (repeatLoop e cs (Suc n) r s)" if "\<not> stopRef (snd (r', s'))"
      using "3.IH"(2) [OF res [symmetric]] that res by simp
    show "repeatLoop e cs (Suc n) r s = (r', s')" if "stopRef (snd (r', s'))"
      using that res by simp
  qed
  then show ?case by simp
next
  case (4 e r s)
  show ?case by (simp add: covers_Nil)
next
  case (5 e cmd rest r s)
  show ?case
  proof (cases "stopRef s")
    case True
    then show ?thesis by (simp add: covers_stopped)
  next
    case run: False
    obtain r' s' where res: "executeCommand e cmd r s = (r', s')"
      by (cases "executeCommand e cmd r s")
    have split: "leaves (cmd # rest) = leaves [cmd] @ leaves rest"
      by simp
    have "covers (leaves [cmd] @ leaves rest) r s (runSequence e (cmd # rest) r s)"
    proof (rule covers_append [where ?res1.0 = "(r', s')"])
      show "covers (leaves [cmd]) r s (r', s')"
        using "5.IH"(1) [OF run] res by simp
      show "covers (leaves rest) (fst (r', s')) (snd (r', s')) (runSequence e (cmd # rest) r s)"
        if "\<not> stopRef (snd (r', s'))"
        using "5.IH"(2) [OF run res [symmetric]] run res by simp
      show "runSequence e (cmd # rest) r s = (r', s')" if "stopRef (snd (r', s'))"
        using that run res by (simp add: runSequence_stopped)
    qed
    with split show ?thesis by (simp del: leaves.simps)
  qed
qed

lemma full_run:
  assumes "\<not> stopRef s"
  shows "ran r s (leaves p) (runSequence neverStopped p r s)"
proof -
  from engine_covers(3) [of p r s neverStopped] never_stops(3) [OF assms, of p r]
  show ?thesis unfolding covers_def by auto
qed

lemma engine_grows:
  "prefix (path s) (path (snd (executeCommand e c r s)))"
  "prefix (path s) (path (snd (runSequence e p r s)))"
  using engine_covers(1) [of c r s e] engine_covers(3) [of p r s e]
  unfolding covers_def ran_def by auto

lemma engine_prefix_from:
  assumes "path s' = path s" and "\<not> stopRef s'"
  shows "prefix (path (snd (runSequence e p r s))) (path (snd (runSequence neverStopped p r s')))"
proof -
  from engine_covers(3) [of p r s e] obtain d where
    d: "prefix d (leaves p)" "path (snd (runSequence e p r s)) = path s @ samples r d"
    unfolding covers_def ran_def by blast
  from full_run [OF assms(2), of r p] have
    "path (snd (runSequence neverStopped p r s')) = path s' @ samples r (leaves p)"
    by (simp add: ran_def)
  with d assms(1) show ?thesis by (simp add: prefix_samples)
qed

lemma engine_prefix:
  "prefix (path (snd (runSequence e p r s))) (path (snd (runSequence neverStopped p r s)))"
proof (cases "stopRef s")
  case True
  then show ?thesis by (simp add: runSequence_stopped)
next
  case False
  then show ?thesis by (simp add: engine_prefix_from)
qed

lemma handleRun_prefix:
  "prefix (path (handleRun e s)) (path (handleRun neverStopped s))"
proof (cases "commands s = []")
  case True
  then show ?thesis by (simp add: handleRun_def)
next
  case False
  let ?s1 = "resetPosition (s\<lparr>isPlaying := True, stopRef := False\<rparr>)"
  have "path (delay neverStopped ?s1) = path (delay e ?s1)"
    by simp
  moreover have "\<not> stopRef (delay neverStopped ?s1)"
    by (simp add: stopRef_delay neverStopped_def)
  ultimately have "prefix (path (snd (runSequence e (commands s) startRobot (delay e ?s1))))
      (path (snd (runSequence neverStopped (commands s) startRobot (delay neverStopped ?s1))))"
    by (rule engine_prefix_from)
  with False show ?thesis
    by (simp add: handleRun_def Let_def startRobot_def)
qed

lemma handleRun_never_stops:
  "\<not> stopRef (handleRun neverStopped (initialApp\<lparr>commands := p\<rparr>))"
proof (cases "p = []")
  case True
  then show ?thesis by (simp add: handleRun_def initialApp_def)
next
  case False
  let ?s1 = "resetPosition (initialApp\<lparr>commands := p, isPlaying := True, stopRef := False\<rparr>)"
  have "\<not> stopRef (delay neverStopped ?s1)"
    by (simp add: stopRef_delay neverStopped_def)
  then have "\<not> stopRef (snd (runSequence neverStopped p startRobot (delay neverStopped ?s1)))"
    by (rule never_stops)
  with False show ?thesis
    by (simp add: handleRun_def Let_def startRobot_def)
qed

text \<open>The definitions that a run on a given program and schedule unfolds to.\<close>

lemmas run_eval =
  handleRun_def Let_def executeCommand.simps delay_def handleStop_def moveCase_def
  turnCase_def setPath_def setRobotState_def resetPosition_def initialApp_def
  stoppedDuring_def neverStopped_def

subsection \<open>Movements and turns\<close>

text \<open>
  Claim C5. A \<^verbatim>\<open>FORWARD\<close> or \<^verbatim>\<open>BACKWARD\<close> command that is executed (the stop flag is
  clear when it is entered) moves the robot by the signed distance along the direction
  of its angle: the angle in degrees times \<open>\<pi>\<close> over 180 is the angle in radians, the
  signed distance is the value times the cell size of 40, negated for
  \<^verbatim>\<open>BACKWARD\<close>, and the new position is the old one plus \<open>(cos, sin)\<close> of the
  angle in radians times the signed distance. The command appends exactly one point to
  the path, the new position, and publishes the new robot. With the value 2 the
  displacement is 80 along x and 0 along y at the angle 0, and 0 along x and 80 along
  y at the angle 90 (minus 80 for \<^verbatim>\<open>BACKWARD\<close>).
\<close>

theorem move_displaces_by_signed_distance:
  assumes "\<not> stopRef s" and "cmd_type c = FORWARD \<or> cmd_type c = BACKWARD"
  shows "fst (executeCommand e c r s) =
           r\<lparr>rx := rx r + cos (angle r * pi / 180) * signedDistance c,
             ry := ry r + sin (angle r * pi / 180) * signedDistance c\<rparr> \<and>
         signedDistance c =
           real_of_int (cmd_value c) * 40 * (if cmd_type c = FORWARD then 1 else - 1) \<and>
         path (snd (executeCommand e c r s)) =
           path s @ [\<lparr>px = rx (fst (executeCommand e c r s)),
                      py = ry (fst (executeCommand e c r s))\<rparr>] \<and>
         published (snd (executeCommand e c r s)) =
           published s @ [fst (executeCommand e c r s)] \<and>
         (cmd_type c = FORWARD \<and> cmd_value c = 2 \<and> angle r = 0 \<longrightarrow>
            rx (fst (executeCommand e c r s)) - rx r = 80 \<and>
            ry (fst (executeCommand e c r s)) - ry r = 0) \<and>
         (cmd_type c = FORWARD \<and> cmd_value c = 2 \<and> angle r = 90 \<longrightarrow>
            rx (fst (executeCommand e c r s)) - rx r = 0 \<and>
            ry (fst (executeCommand e c r s)) - ry r = 80) \<and>
         (cmd_type c = BACKWARD \<and> cmd_value c = 2 \<and> angle r = 90 \<longrightarrow>
            rx (fst (executeCommand e c r s)) - rx r = 0 \<and>
            ry (fst (executeCommand e c r s)) - ry r = - 80)"
proof -
  from assms have run: "executeCommand e c r s = moveCase c r (delay e s)"
    by (simp add: executeCommand_move isMove_def)
  have mv: "moveRobot c r =
      r\<lparr>rx := rx r + cos (angle r * pi / 180) * signedDistance c,
        ry := ry r + sin (angle r * pi / 180) * signedDistance c\<rparr>"
    by (simp add: moveRobot_eq toRad_def)
  have sd: "signedDistance c =
      real_of_int (cmd_value c) * 40 * (if cmd_type c = FORWARD then 1 else - 1)"
    by (simp add: signedDistance_def GRID_SIZE_def)
  have zero: "cmd_type c = FORWARD \<and> cmd_value c = 2 \<and> angle r = 0 \<longrightarrow>
          rx (moveRobot c r) - rx r = 80 \<and> ry (moveRobot c r) - ry r = 0"
    by (simp add: mv sd)
  have quarter: "cmd_type c = FORWARD \<and> cmd_value c = 2 \<and> angle r = 90 \<longrightarrow>
          rx (moveRobot c r) - rx r = 0 \<and> ry (moveRobot c r) - ry r = 80"
    by (simp add: mv sd)
  have bwd: "cmd_type c = BACKWARD \<and> cmd_value c = 2 \<and> angle r = 90 \<longrightarrow>
          rx (moveRobot c r) - rx r = 0 \<and> ry (moveRobot c r) - ry r = - 80"
    by (simp add: mv sd)
  from zero quarter bwd sd show ?thesis
    unfolding run by (simp add: moveCase_fields) (simp add: mv)
qed

theorem move_displaces_by_signed_distance_witness:
  "rx (fst (executeCommand neverStopped (Command ''m'' FORWARD 2 None)
        \<lparr>rx = 0, ry = 0, angle = 0, penDown = True\<rparr> initialApp)) = 80 \<and>
   ry (fst (executeCommand neverStopped (Command ''m'' FORWARD 2 None)
        \<lparr>rx = 0, ry = 0, angle = 0, penDown = True\<rparr> initialApp)) = 0 \<and>
   path (snd (executeCommand neverStopped (Command ''m'' FORWARD 2 None)
        \<lparr>rx = 0, ry = 0, angle = 0, penDown = True\<rparr> initialApp)) =
     [startPoint, \<lparr>px = 80, py = 0\<rparr>] \<and>
   fst (executeCommand neverStopped (Command ''m'' FORWARD 2 None)
        \<lparr>rx = 0, ry = 0, angle = 90, penDown = True\<rparr> initialApp) =
     \<lparr>rx = 0, ry = 80, angle = 90, penDown = True\<rparr> \<and>
   path (snd (executeCommand neverStopped (Command ''m'' FORWARD 2 None)
        \<lparr>rx = 0, ry = 0, angle = 90, penDown = True\<rparr> initialApp)) =
     [startPoint, \<lparr>px = 0, py = 80\<rparr>] \<and>
   fst (executeCommand neverStopped (Command ''b'' BACKWARD 3 None)
        \<lparr>rx = 10, ry = 20, angle = 180, penDown = True\<rparr> initialApp) =
     \<lparr>rx = 130, ry = 20, angle = 180, penDown = True\<rparr>"
  using move_displaces_by_signed_distance [of initialApp "Command ''m'' FORWARD 2 None" neverStopped
          "\<lparr>rx = 0, ry = 0, angle = 0, penDown = True\<rparr>"]
    move_displaces_by_signed_distance [of initialApp "Command ''m'' FORWARD 2 None" neverStopped
          "\<lparr>rx = 0, ry = 0, angle = 90, penDown = True\<rparr>"]
    move_displaces_by_signed_distance [of initialApp "Command ''b'' BACKWARD 3 None" neverStopped
          "\<lparr>rx = 10, ry = 20, angle = 180, penDown = True\<rparr>"]
  by (simp add: initialApp_def)


text \<open>
  Claim C7. A \<^verbatim>\<open>TURN_RIGHT\<close> or \<^verbatim>\<open>TURN_LEFT\<close> command that is executed adds its
  value to the angle, respectively subtracts it, and nothing else: the sum is not
  reduced into any range (from 350 a right turn by 90 gives 440). It publishes the
  new robot and leaves the path as it is.
\<close>

theorem turn_adds_signed_value:
  assumes "\<not> stopRef s" and "cmd_type c = TURN_LEFT \<or> cmd_type c = TURN_RIGHT"
  shows "fst (executeCommand e c r s) =
           r\<lparr>angle := angle r +
                (if cmd_type c = TURN_RIGHT then real_of_int (cmd_value c)
                 else - real_of_int (cmd_value c))\<rparr> \<and>
         path (snd (executeCommand e c r s)) = path s \<and>
         published (snd (executeCommand e c r s)) = published s @ [fst (executeCommand e c r s)]"
proof -
  from assms have run: "executeCommand e c r s = turnCase c r (delay e s)"
    by (simp add: executeCommand_turn)
  show ?thesis
    unfolding run using assms(2) by (auto simp add: turnCase_fields turnRobot_def Let_def)
qed

theorem turn_adds_signed_value_witness:
  "angle (fst (executeCommand neverStopped (Command ''t'' TURN_RIGHT 90 None)
        \<lparr>rx = 0, ry = 0, angle = 350, penDown = True\<rparr> initialApp)) = 440 \<and>
   angle (fst (executeCommand neverStopped (Command ''t'' TURN_LEFT 90 None)
        \<lparr>rx = 0, ry = 0, angle = - 350, penDown = True\<rparr> initialApp)) = - 440 \<and>
   path (snd (executeCommand neverStopped (Command ''t'' TURN_RIGHT 90 None)
        \<lparr>rx = 0, ry = 0, angle = 350, penDown = True\<rparr> initialApp)) = [startPoint]"
  using turn_adds_signed_value
      [of initialApp "Command ''t'' TURN_RIGHT 90 None" neverStopped
          "\<lparr>rx = 0, ry = 0, angle = 350, penDown = True\<rparr>"]
    turn_adds_signed_value
      [of initialApp "Command ''t'' TURN_LEFT 90 None" neverStopped
          "\<lparr>rx = 0, ry = 0, angle = - 350, penDown = True\<rparr>"]
  by (simp add: initialApp_def)

subsection \<open>Repetition\<close>

text \<open>
  Claim C6. Executing a \<^verbatim>\<open>REPEAT\<close> node with the count \<open>n\<close> and the children \<open>cs\<close> is
  one delay, which publishes nothing, followed by the sequence \<open>cs\<close> run \<open>n\<close> times
  over, one copy after the other; in a sequence the siblings of the node follow the last
  copy. The children are run by \<^verbatim>\<open>runSequence\<close> as any sequence is, so a \<^verbatim>\<open>REPEAT\<close>
  among them obeys the same equation, at any depth. When the stop button is never
  pressed the node has the effect of its unrolled leaves, \<open>n\<close> times the leaves of
  \<open>cs\<close>. Three right turns by 90 from the angle 0 end at 270 and leave the length of
  the path unchanged.
\<close>

theorem repeat_runs_children_in_sequence:
  assumes rep: "cmd_type c = REPEAT" and ch: "children c = Some cs" and run: "\<not> stopRef s"
  shows "executeCommand e c r s =
           runSequence e (concat (replicate (nat (cmd_value c)) cs)) r (delay e s) \<and>
         runSequence e (c # rest) r s =
           runSequence e (concat (replicate (nat (cmd_value c)) cs) @ rest) r (delay e s) \<and>
         path (delay e s) = path s \<and> published (delay e s) = published s \<and>
         robotState (delay e s) = robotState s \<and>
         fst (executeCommand neverStopped c r s) =
           foldl applyLeaf r (concat (replicate (nat (cmd_value c)) (leaves cs))) \<and>
         path (snd (executeCommand neverStopped c r s)) =
           path s @ samples r (concat (replicate (nat (cmd_value c)) (leaves cs))) \<and>
         published (snd (executeCommand neverStopped c r s)) =
           published s @ poses r (concat (replicate (nat (cmd_value c)) (leaves cs))) \<and>
         (cmd_value c = 3 \<and> cs = [t] \<and> cmd_type t = TURN_RIGHT \<and> cmd_value t = 90 \<and>
          angle r = 0 \<longrightarrow>
            angle (fst (executeCommand neverStopped c r s)) = 270 \<and>
            length (path (snd (executeCommand neverStopped c r s))) = length (path s))"
proof -
  have one: "executeCommand e c r s =
      runSequence e (concat (replicate (nat (cmd_value c)) cs)) r (delay e s)"
    using assms by (simp add: executeCommand_repeat repeatLoop_unrolled)
  have two: "runSequence e (c # rest) r s =
      runSequence e (concat (replicate (nat (cmd_value c)) cs) @ rest) r (delay e s)"
    using run by (simp add: one runSequence_append)
  have "covers (leaves [c]) r s (executeCommand neverStopped c r s)"
    by (rule engine_covers)
  with never_stops(1) [OF run, of c r]
  have full: "ran r s (leaves [c]) (executeCommand neverStopped c r s)"
    unfolding covers_def by auto
  have three: "fst (executeCommand neverStopped c r s) =
        foldl applyLeaf r (concat (replicate (nat (cmd_value c)) (leaves cs)))"
      "path (snd (executeCommand neverStopped c r s)) =
        path s @ samples r (concat (replicate (nat (cmd_value c)) (leaves cs)))"
      "published (snd (executeCommand neverStopped c r s)) =
        published s @ poses r (concat (replicate (nat (cmd_value c)) (leaves cs)))"
    using full unfolding leaves_repeat [OF rep ch] ran_def by simp_all
  have four: "angle (fst (executeCommand neverStopped c r s)) = 270 \<and>
      length (path (snd (executeCommand neverStopped c r s))) = length (path s)"
    if "cmd_value c = 3" "cs = [t]" "cmd_type t = TURN_RIGHT" "cmd_value t = 90" "angle r = 0"
  proof -
    have "concat (replicate (nat (cmd_value c)) (leaves cs)) = [t, t, t]"
      using that by (simp add: numeral_3_eq_3)
    with that show ?thesis
      unfolding three by (simp add: applyLeaf_def isMove_def turnRobot_def)
  qed
  from one two three four show ?thesis
    by simp
qed

theorem repeat_runs_children_in_sequence_witness:
  "angle (fst (executeCommand neverStopped
        (Command ''r'' REPEAT 3 (Some [Command ''t'' TURN_RIGHT 90 None]))
        \<lparr>rx = 0, ry = 0, angle = 0, penDown = True\<rparr> initialApp)) = 270 \<and>
   length (path (snd (executeCommand neverStopped
        (Command ''r'' REPEAT 3 (Some [Command ''t'' TURN_RIGHT 90 None]))
        \<lparr>rx = 0, ry = 0, angle = 0, penDown = True\<rparr> initialApp))) = length (path initialApp)"
proof -
  let ?t = "Command ''t'' TURN_RIGHT 90 None"
  let ?c = "Command ''r'' REPEAT 3 (Some [?t])"
  let ?r = "\<lparr>rx = 0, ry = 0, angle = 0, penDown = True\<rparr>"
  have "cmd_type ?c = REPEAT" and "children ?c = Some [?t]" and "\<not> stopRef initialApp"
    by (simp_all add: initialApp_def)
  from repeat_runs_children_in_sequence [OF this, of neverStopped ?r "[]" ?t]
  have "cmd_value ?c = 3 \<and> [?t] = [?t] \<and> cmd_type ?t = TURN_RIGHT \<and> cmd_value ?t = 90 \<and>
        angle ?r = 0 \<longrightarrow>
          angle (fst (executeCommand neverStopped ?c ?r initialApp)) = 270 \<and>
          length (path (snd (executeCommand neverStopped ?c ?r initialApp))) =
            length (path initialApp)"
    by (elim conjE)
  then show ?thesis
    by simp
qed

subsection \<open>Cancellation\<close>

text \<open>
  Claim C4, as stated, fails in the word strict: a run that is cancelled can have
  drawn the whole path already. In the program below the stop button is pressed while
  the first command, a movement, awaits its delay. The movement is still executed, the
  turn after it is not (two robots are published instead of three, and the stop flag
  is set), and the path of the cancelled run equals the path of the full run.
\<close>

theorem cancelled_path_is_whole_path_counterexample:
  "path (handleRun (stoppedDuring 1)
      (initialApp\<lparr>commands :=
         [Command ''f'' FORWARD 1 None, Command ''t'' TURN_RIGHT 90 None]\<rparr>)) =
   path (handleRun neverStopped
      (initialApp\<lparr>commands :=
         [Command ''f'' FORWARD 1 None, Command ''t'' TURN_RIGHT 90 None]\<rparr>)) \<and>
   \<not> strict_prefix
     (path (handleRun (stoppedDuring 1)
        (initialApp\<lparr>commands :=
           [Command ''f'' FORWARD 1 None, Command ''t'' TURN_RIGHT 90 None]\<rparr>)))
     (path (handleRun neverStopped
        (initialApp\<lparr>commands :=
           [Command ''f'' FORWARD 1 None, Command ''t'' TURN_RIGHT 90 None]\<rparr>))) \<and>
   stopRef (handleRun (stoppedDuring 1)
      (initialApp\<lparr>commands :=
         [Command ''f'' FORWARD 1 None, Command ''t'' TURN_RIGHT 90 None]\<rparr>)) \<and>
   length (published (handleRun (stoppedDuring 1)
      (initialApp\<lparr>commands :=
         [Command ''f'' FORWARD 1 None, Command ''t'' TURN_RIGHT 90 None]\<rparr>))) = 2 \<and>
   length (published (handleRun neverStopped
      (initialApp\<lparr>commands :=
         [Command ''f'' FORWARD 1 None, Command ''t'' TURN_RIGHT 90 None]\<rparr>))) = 3"
  by (simp add: run_eval)

lemma stopped_unwinds:
  "stopRef s \<Longrightarrow> enterSequence p r st s = (None, s\<lparr>isPlaying := False\<rparr>)"
  "stopRef s \<Longrightarrow> returnTo r st s = (None, s\<lparr>isPlaying := False\<rparr>)"
  by (induction p r st s and r st s rule: enterSequence_returnTo.induct) simp_all

text \<open>
  Claim C4, amended. Whenever the stop button is pressed during a run, the path when
  the run halts is a prefix of the path of the full run of the same program, the whole
  of it included; this holds for \<^verbatim>\<open>handleRun\<close> and for every call of
  \<^verbatim>\<open>runSequence\<close>. Once the stop flag is set no further command is executed: a command
  that is entered, a repetition that is about to start another iteration and a sequence
  that is about to take its next command all return at once, with the robot and the
  state they were given, and so at every level of nesting: whatever callers await the
  result, every one of them returns in turn, down to \<^verbatim>\<open>handleRun\<close>, and the call is
  not suspended in another command.
\<close>

theorem cancelled_path_is_prefix:
  "prefix (path (handleRun e s)) (path (handleRun neverStopped s)) \<and>
   prefix (path (snd (runSequence e p r s))) (path (snd (runSequence neverStopped p r s))) \<and>
   (stopRef s \<longrightarrow>
      executeCommand e c r s = (r, s) \<and> repeatLoop e cs n r s = (r, s) \<and>
      runSequence e p r s = (r, s) \<and>
      enterSequence p r st s = (None, s\<lparr>isPlaying := False\<rparr>) \<and>
      returnTo r st s = (None, s\<lparr>isPlaying := False\<rparr>))"
  by (simp add: handleRun_prefix engine_prefix executeCommand_stopped repeatLoop_stopped
      runSequence_stopped stopped_unwinds)

theorem cancelled_path_is_prefix_witness:
  "prefix
     (path (handleRun (stoppedDuring 1)
        (initialApp\<lparr>commands :=
           [Command ''f'' FORWARD 1 None, Command ''g'' FORWARD 1 None]\<rparr>)))
     (path (handleRun neverStopped
        (initialApp\<lparr>commands :=
           [Command ''f'' FORWARD 1 None, Command ''g'' FORWARD 1 None]\<rparr>))) \<and>
   length (path (handleRun (stoppedDuring 1)
        (initialApp\<lparr>commands :=
           [Command ''f'' FORWARD 1 None, Command ''g'' FORWARD 1 None]\<rparr>))) = 2 \<and>
   length (path (handleRun neverStopped
        (initialApp\<lparr>commands :=
           [Command ''f'' FORWARD 1 None, Command ''g'' FORWARD 1 None]\<rparr>))) = 3 \<and>
   runSequence neverStopped [Command ''f'' FORWARD 1 None] startRobot
       (initialApp\<lparr>stopRef := True\<rparr>) = (startRobot, initialApp\<lparr>stopRef := True\<rparr>)"
  using cancelled_path_is_prefix
      [of "stoppedDuring 1"
          "initialApp\<lparr>commands :=
             [Command ''f'' FORWARD 1 None, Command ''g'' FORWARD 1 None]\<rparr>"]
    cancelled_path_is_prefix
      [of neverStopped "initialApp\<lparr>stopRef := True\<rparr>" "[Command ''f'' FORWARD 1 None]"
          startRobot]
  by (simp add: run_eval)

lemma applyLeaf_explicit:
  "cmd_type c \<noteq> REPEAT \<Longrightarrow>
     applyLeaf r c =
       (if cmd_type c = FORWARD \<or> cmd_type c = BACKWARD
        then r\<lparr>rx := rx r + cos (angle r * pi / 180) *
                    (real_of_int (cmd_value c) * 40 * (if cmd_type c = FORWARD then 1 else - 1)),
               ry := ry r + sin (angle r * pi / 180) *
                    (real_of_int (cmd_value c) * 40 * (if cmd_type c = FORWARD then 1 else - 1))\<rparr>
        else r\<lparr>angle := angle r +
                    (if cmd_type c = TURN_RIGHT then real_of_int (cmd_value c)
                     else - real_of_int (cmd_value c))\<rparr>)"
  by (cases "cmd_type c")
     (simp_all add: applyLeaf_def isMove_def moveRobot_eq signedDistance_def toRad_def
        GRID_SIZE_def turnRobot_def Let_def)

text \<open>
  Claim C10. The stop flag is read when a command is entered, before its delay, and
  not again until the command is over. So when the stop button is pressed while a leaf
  command awaits its delay (the flag was clear on entry), the command still does all
  of its work. A movement displaces the robot by its value times 40, negated for
  \<^verbatim>\<open>BACKWARD\<close>, along \<open>(cos, sin)\<close> of the angle times \<open>\<pi>\<close> over 180; a turn adds
  its value to the angle, or subtracts it for \<^verbatim>\<open>TURN_LEFT\<close>. The new robot is
  published, and a movement appends its point. The flag is set when the command
  returns, and the sequence halts there: whatever commands remain, it returns what the
  command returned.
\<close>

theorem stop_during_delay_acts_after_the_command:
  assumes run: "\<not> stopRef s" and click: "e (elapsed s)" and leaf: "cmd_type c \<noteq> REPEAT"
  shows "fst (executeCommand e c r s) = applyLeaf r c \<and>
         applyLeaf r c =
           (if cmd_type c = FORWARD \<or> cmd_type c = BACKWARD
            then r\<lparr>rx := rx r + cos (angle r * pi / 180) *
                        (real_of_int (cmd_value c) * 40 *
                           (if cmd_type c = FORWARD then 1 else - 1)),
                   ry := ry r + sin (angle r * pi / 180) *
                        (real_of_int (cmd_value c) * 40 *
                           (if cmd_type c = FORWARD then 1 else - 1))\<rparr>
            else r\<lparr>angle := angle r +
                        (if cmd_type c = TURN_RIGHT then real_of_int (cmd_value c)
                         else - real_of_int (cmd_value c))\<rparr>) \<and>
         published (snd (executeCommand e c r s)) = published s @ [applyLeaf r c] \<and>
         robotState (snd (executeCommand e c r s)) = applyLeaf r c \<and>
         path (snd (executeCommand e c r s)) =
           path s @ (if isMove c then [\<lparr>px = rx (applyLeaf r c), py = ry (applyLeaf r c)\<rparr>]
                     else []) \<and>
         isMove c = (cmd_type c = FORWARD \<or> cmd_type c = BACKWARD) \<and>
         stopRef (snd (executeCommand e c r s)) \<and>
         runSequence e rest (fst (executeCommand e c r s)) (snd (executeCommand e c r s)) =
           executeCommand e c r s \<and>
         runSequence e (c # rest) r s = executeCommand e c r s"
proof -
  from run click have stop: "stopRef (delay e s)"
    by (simp add: stopRef_delay)
  have eff: "fst (executeCommand e c r s) = applyLeaf r c \<and>
         published (snd (executeCommand e c r s)) = published s @ [applyLeaf r c] \<and>
         robotState (snd (executeCommand e c r s)) = applyLeaf r c \<and>
         path (snd (executeCommand e c r s)) =
           path s @ (if isMove c then [\<lparr>px = rx (applyLeaf r c), py = ry (applyLeaf r c)\<rparr>]
                     else []) \<and>
         stopRef (snd (executeCommand e c r s))"
    using run leaf stop
    by (cases "cmd_type c")
       (simp_all add: executeCommand.simps applyLeaf_def isMove_def moveCase_fields
          turnCase_fields moveCase_def turnCase_def setPath_def setRobotState_def Let_def)
  then have "stopRef (snd (executeCommand e c r s))"
    by simp
  then have halt: "runSequence e rest (fst (executeCommand e c r s)) (snd (executeCommand e c r s)) =
      executeCommand e c r s"
    by (simp add: runSequence_stopped)
  have "runSequence e (c # rest) r s = executeCommand e c r s"
  proof (cases "executeCommand e c r s")
    case (Pair r' s')
    with halt run show ?thesis by simp
  qed
  with eff halt applyLeaf_explicit [OF leaf, of r] show ?thesis
    by (simp add: isMove_def)
qed

theorem stop_during_delay_acts_after_the_command_witness:
  "fst (executeCommand (stoppedDuring 0) (Command ''f'' FORWARD 1 None)
          \<lparr>rx = 0, ry = 0, angle = 90, penDown = True\<rparr> initialApp) =
     \<lparr>rx = 0, ry = 40, angle = 90, penDown = True\<rparr> \<and>
   path (snd (executeCommand (stoppedDuring 0) (Command ''f'' FORWARD 1 None)
          \<lparr>rx = 0, ry = 0, angle = 90, penDown = True\<rparr> initialApp)) =
     [startPoint, \<lparr>px = 0, py = 40\<rparr>] \<and>
   stopRef (snd (executeCommand (stoppedDuring 0) (Command ''f'' FORWARD 1 None)
          \<lparr>rx = 0, ry = 0, angle = 90, penDown = True\<rparr> initialApp)) \<and>
   runSequence (stoppedDuring 0)
       [Command ''f'' FORWARD 1 None, Command ''g'' FORWARD 1 None]
       \<lparr>rx = 0, ry = 0, angle = 90, penDown = True\<rparr> initialApp =
     executeCommand (stoppedDuring 0) (Command ''f'' FORWARD 1 None)
       \<lparr>rx = 0, ry = 0, angle = 90, penDown = True\<rparr> initialApp \<and>
   fst (executeCommand (stoppedDuring 0) (Command ''t'' TURN_RIGHT 90 None)
          \<lparr>rx = 0, ry = 0, angle = 0, penDown = True\<rparr> initialApp) =
     \<lparr>rx = 0, ry = 0, angle = 90, penDown = True\<rparr> \<and>
   published (snd (executeCommand (stoppedDuring 0) (Command ''t'' TURN_RIGHT 90 None)
          \<lparr>rx = 0, ry = 0, angle = 0, penDown = True\<rparr> initialApp)) =
     [\<lparr>rx = 0, ry = 0, angle = 90, penDown = True\<rparr>] \<and>
   path (snd (executeCommand (stoppedDuring 0) (Command ''t'' TURN_RIGHT 90 None)
          \<lparr>rx = 0, ry = 0, angle = 0, penDown = True\<rparr> initialApp)) = [startPoint] \<and>
   stopRef (snd (executeCommand (stoppedDuring 0) (Command ''t'' TURN_RIGHT 90 None)
          \<lparr>rx = 0, ry = 0, angle = 0, penDown = True\<rparr> initialApp)) \<and>
   fst (runSequence (stoppedDuring 0)
       [Command ''u'' TURN_LEFT 45 None, Command ''g'' FORWARD 1 None]
       \<lparr>rx = 0, ry = 0, angle = 0, penDown = True\<rparr> initialApp) =
     \<lparr>rx = 0, ry = 0, angle = - 45, penDown = True\<rparr>"
proof -
  have pre: "\<not> stopRef initialApp" "stoppedDuring 0 (elapsed initialApp)"
    by (simp_all add: initialApp_def stoppedDuring_def)
  from stop_during_delay_acts_after_the_command [of initialApp "stoppedDuring 0" "Command ''f'' FORWARD 1 None"
          "\<lparr>rx = 0, ry = 0, angle = 90, penDown = True\<rparr>" "[Command ''g'' FORWARD 1 None]",
       OF pre]
    stop_during_delay_acts_after_the_command [of initialApp "stoppedDuring 0" "Command ''t'' TURN_RIGHT 90 None"
          "\<lparr>rx = 0, ry = 0, angle = 0, penDown = True\<rparr>" "[]", OF pre]
    stop_during_delay_acts_after_the_command [of initialApp "stoppedDuring 0" "Command ''u'' TURN_LEFT 45 None"
          "\<lparr>rx = 0, ry = 0, angle = 0, penDown = True\<rparr>" "[Command ''g'' FORWARD 1 None]",
       OF pre]
  show ?thesis
    by (simp add: isMove_def initialApp_def)
qed

text \<open>
  A \<^verbatim>\<open>REPEAT\<close> node has no work of its own to finish: when the stop button is pressed
  while the node awaits its delay, its loop starts, the sequence of the children returns
  at its first test of the flag, and no child is executed.
\<close>

lemma stop_during_delay_of_repeat:
  assumes "\<not> stopRef s" and "e (elapsed s)" and "cmd_type c = REPEAT"
  shows "executeCommand e c r s = (r, delay e s)"
proof -
  from assms(1,2) have "stopRef (delay e s)"
    by (simp add: stopRef_delay)
  with assms(1,3) show ?thesis
    by (cases "children c") (simp_all add: executeCommand.simps repeatLoop_stopped)
qed

section \<open>Properties of the event loop\<close>

subsection \<open>What a step shows\<close>

lemma suspension_keeps:
  "path (snd (enterSequence p r st s)) = path s \<and>
   published (snd (enterSequence p r st s)) = published s \<and>
   robotState (snd (enterSequence p r st s)) = robotState s \<and>
   stopRef (snd (enterSequence p r st s)) = stopRef s"
  "path (snd (returnTo r st s)) = path s \<and>
   published (snd (returnTo r st s)) = published s \<and>
   robotState (snd (returnTo r st s)) = robotState s \<and>
   stopRef (snd (returnTo r st s)) = stopRef s"
  by (induction p r st s and r st s rule: enterSequence_returnTo.induct)
     (simp_all split: nat.splits)

lemma resume_start:
  "path (snd (resume (StartDelay p) s)) = path s \<and>
   published (snd (resume (StartDelay p) s)) = published s"
  by (simp add: resume_def suspension_keeps)

lemma resume_step:
  "path (snd (resume (StepDelay c r st) s)) =
     path s @ (if isMove c then [\<lparr>px = rx (applyLeaf r c), py = ry (applyLeaf r c)\<rparr>] else []) \<and>
   published (snd (resume (StepDelay c r st) s)) =
     published s @ (if cmd_type c = REPEAT then [] else [applyLeaf r c])"
  by (cases "cmd_type c")
     (simp_all add: resume_def suspension_keeps moveCase_fields turnCase_fields applyLeaf_def
        isMove_def case_prod_beta split: option.splits nat.splits)

subsection \<open>The two views of a run agree\<close>

lemma reaches_done: "reaches e (None, s) s"
  by (simp add: reaches_def finish_def)

lemma reaches_resume:
  assumes "reaches e (resume t (delay e s)) final"
  shows "reaches e (Some t, s) final"
proof -
  from assms obtain k where k: "finish k e (resume t (delay e s)) = Some final"
    unfolding reaches_def by blast
  have "finish (Suc k) e (Some t, s) = finish k e (resume t (delay e s))"
    by (cases "resume t (delay e s)") (auto simp: finish_def split: option.splits)
  with k show ?thesis
    unfolding reaches_def by metis
qed

lemma resume_leaf:
  "cmd_type c \<noteq> REPEAT \<Longrightarrow> \<not> stopRef s \<Longrightarrow>
     resume (StepDelay c r st) (delay e s) =
       (case executeCommand e c r s of (r', s') \<Rightarrow> returnTo r' st s')"
  by (cases "cmd_type c") (simp_all add: resume_def executeCommand.simps)

lemma resume_repeat:
  "cmd_type c = REPEAT \<Longrightarrow>
     resume (StepDelay c r st) s1 =
       (case children c of
          Some cs \<Rightarrow>
            (case nat (cmd_value c) of
               0 \<Rightarrow> returnTo r st s1
             | Suc m \<Rightarrow> enterSequence cs r (RepeatFrame cs m # st) s1)
        | None \<Rightarrow> returnTo r st s1)"
  by (simp add: resume_def)

text \<open>
  Whatever state the callers reach from the result of a call of the engine, the
  suspended call reaches it too: for a command suspended in its delay, for a
  repetition about to start, and for a sequence about to start.
\<close>

lemma engine_agrees:
  "\<not> stopRef s \<Longrightarrow>
     (\<forall>st final. reaches e (case executeCommand e c r s of (r', s') \<Rightarrow> returnTo r' st s') final \<longrightarrow>
        reaches e (Some (StepDelay c r st), s) final)"
  "\<forall>st final. reaches e (case repeatLoop e cs n r s of (r', s') \<Rightarrow> returnTo r' st s') final \<longrightarrow>
        reaches e (case n of 0 \<Rightarrow> returnTo r st s
                   | Suc m \<Rightarrow> enterSequence cs r (RepeatFrame cs m # st) s) final"
  "\<forall>st final. reaches e (case runSequence e p r s of (r', s') \<Rightarrow> returnTo r' st s') final \<longrightarrow>
        reaches e (enterSequence p r st s) final"
proof (induction e c r s and e cs n r s and e p r s
    rule: executeCommand_repeatLoop_runSequence.induct)
  case (1 e cmd r s)
  show ?case
  proof (intro allI impI)
    fix st final
    assume fin: "reaches e (case executeCommand e cmd r s of (r', s') \<Rightarrow> returnTo r' st s') final"
    show "reaches e (Some (StepDelay cmd r st), s) final"
    proof (rule reaches_resume, cases "cmd_type cmd = REPEAT")
      case False
      with fin "1.prems" show "reaches e (resume (StepDelay cmd r st) (delay e s)) final"
        by (simp add: resume_leaf)
    next
      case rep: True
      show "reaches e (resume (StepDelay cmd r st) (delay e s)) final"
      proof (cases "children cmd")
        case None
        with fin rep "1.prems" show ?thesis
          by (simp add: resume_repeat executeCommand.simps)
      next
        case (Some cs)
        from fin rep Some "1.prems"
        have "reaches e (case repeatLoop e cs (nat (cmd_value cmd)) r (delay e s) of
                 (r', s') \<Rightarrow> returnTo r' st s') final"
          by (simp add: executeCommand.simps)
        with "1.IH" [OF "1.prems" refl rep Some] rep Some show ?thesis
          by (simp add: resume_repeat)
      qed
    qed
  qed
next
  case (2 e cs r s)
  show ?case by simp
next
  case (3 e cs n r s)
  obtain r1 s1 where res: "runSequence e cs r s = (r1, s1)"
    by (cases "runSequence e cs r s")
  show ?case
  proof (intro allI impI)
    fix st final
    assume fin: "reaches e (case repeatLoop e cs (Suc n) r s of (r', s') \<Rightarrow> returnTo r' st s') final"
    have "reaches e (returnTo r1 (RepeatFrame cs n # st) s1) final"
    proof (cases "stopRef s1")
      case True
      with fin res show ?thesis by simp
    next
      case False
      from fin res False
      have "reaches e (case repeatLoop e cs n r1 s1 of (r', s') \<Rightarrow> returnTo r' st s') final"
        by simp
      with "3.IH"(2) [OF res [symmetric] False] False show ?thesis
        by simp
    qed
    with "3.IH"(1) res
    show "reaches e (case Suc n of 0 \<Rightarrow> returnTo r st s
                   | Suc m \<Rightarrow> enterSequence cs r (RepeatFrame cs m # st) s) final"
      by simp
  qed
next
  case (4 e r s)
  show ?case by simp
next
  case (5 e cmd rest r s)
  show ?case
  proof (cases "stopRef s")
    case True
    then show ?thesis by simp
  next
    case run: False
    obtain r1 s1 where res: "executeCommand e cmd r s = (r1, s1)"
      by (cases "executeCommand e cmd r s")
    show ?thesis
    proof (intro allI impI)
      fix st final
      assume fin: "reaches e (case runSequence e (cmd # rest) r s of
                       (r', s') \<Rightarrow> returnTo r' st s') final"
      with run res
      have "reaches e (case runSequence e rest r1 s1 of (r', s') \<Rightarrow> returnTo r' st s') final"
        by simp
      with "5.IH"(2) [OF run res [symmetric]]
      have "reaches e (enterSequence rest r1 st s1) final"
        by simp
      then have "reaches e (case executeCommand e cmd r s of
                   (r', s') \<Rightarrow> returnTo r' (SequenceFrame rest # st) s') final"
        using res by simp
      with "5.IH"(1) [OF run run] run
      show "reaches e (enterSequence (cmd # rest) r st s) final"
        by simp
    qed
  qed
qed

text \<open>
  A run that no other handler than \<^verbatim>\<open>handleStop\<close> interferes with ends, as a chain of
  suspended calls, in the state that \<open>handleRun\<close> computes as one call.
\<close>

lemma task_view_agrees:
  "reaches e (beginRun s) (handleRun e s)"
proof (cases "commands s = []")
  case True
  then show ?thesis
    by (simp add: beginRun_def handleRun_def reaches_done)
next
  case False
  let ?s1 = "resetPosition (s\<lparr>isPlaying := True, stopRef := False\<rparr>)"
  let ?start = "\<lparr>rx = START_X, ry = START_Y, angle = START_ANGLE, penDown = True\<rparr>"
  obtain r' s' where res: "runSequence e (commands s) ?start (delay e ?s1) = (r', s')"
    by (cases "runSequence e (commands s) ?start (delay e ?s1)")
  have "reaches e (returnTo r' [] s') (s'\<lparr>isPlaying := False\<rparr>)"
    by (simp add: reaches_done)
  with engine_agrees(3) [of e "commands s" ?start "delay e ?s1"] res
  have "reaches e (enterSequence (commands s) ?start [] (delay e ?s1)) (s'\<lparr>isPlaying := False\<rparr>)"
    by auto
  then have "reaches e (Some (StartDelay (commands s)), ?s1) (s'\<lparr>isPlaying := False\<rparr>)"
    by (intro reaches_resume) (simp add: resume_def)
  with False res show ?thesis
    by (simp add: beginRun_def handleRun_def Let_def)
qed

text \<open>
  One step of \<open>drive\<close> is the reaction of a session with that one task to the stop
  button, when the schedule has it pressed (and the button is there), and to the timer.
\<close>

lemma handleStop_elapsed:
  "elapsed (handleStop s) = elapsed s"
  "(handleStop s)\<lparr>elapsed := n\<rparr> = handleStop (s\<lparr>elapsed := n\<rparr>)"
  by (simp_all add: handleStop_def)

lemma drive_step_is_react:
  assumes "pending m = [t]" and "isPlaying (app m) \<or> \<not> e (elapsed (app m))"
  shows "react TimerFires (if e (elapsed (app m)) then react ClickStop m else m) =
           \<lparr>app = snd (resume t (delay e (app m))),
            pending = enqueue (fst (resume t (delay e (app m)))) []\<rparr>"
proof (cases "e (elapsed (app m))")
  case True
  with assms(2) have "isPlaying (app m)" by simp
  with True assms(1) show ?thesis
    by (simp add: delay_def Let_def handleStop_elapsed case_prod_beta)
next
  case False
  with assms(1) show ?thesis
    by (simp add: delay_def Let_def case_prod_beta)
qed

subsection \<open>The path and the published robots of a run\<close>

text \<open>
  Claim C8. A run of a non-empty program, under any schedule of the stop button,
  executes an initial segment \<open>done\<close> of the leaf commands in traversal order (all of
  them if it ends with the stop flag clear). Its path is the start point followed by
  one point for each movement in \<open>done\<close> and nothing for a turn; \<^verbatim>\<open>REPEAT\<close> nodes are
  not leaves and add nothing of their own. The robots it publishes are the start robot
  of the reset and then one robot for each command in \<open>done\<close>, in that order. No call
  of the engine ever shortens the path: the path before is a prefix of the path after.

  Step by step: when the timer of a command fires, the command publishes its one robot
  (none for a \<^verbatim>\<open>REPEAT\<close>) and appends its one point (if it is a movement) before the
  call is suspended again in the delay of the next command; the end of the start delay
  publishes and appends nothing; stopping leaves the path as it is.
\<close>

theorem run_appends_one_point_per_movement:
  assumes "commands s \<noteq> []"
  shows "(\<exists>done. prefix done (leaves (commands s)) \<and>
           path (handleRun e s) = startPoint # samples startRobot done \<and>
           published (handleRun e s) = published s @ startRobot # poses startRobot done \<and>
           length (samples startRobot done) = length (filter isMove done) \<and>
           length (poses startRobot done) = length done \<and>
           (\<not> stopRef (handleRun e s) \<longrightarrow> done = leaves (commands s))) \<and>
         prefix (path s') (path (snd (executeCommand e c r s'))) \<and>
         prefix (path s') (path (snd (runSequence e p r s'))) \<and>
         path (snd (resume (StepDelay c r st) s')) =
           path s' @ (if isMove c then [\<lparr>px = rx (applyLeaf r c), py = ry (applyLeaf r c)\<rparr>]
                      else []) \<and>
         published (snd (resume (StepDelay c r st) s')) =
           published s' @ (if cmd_type c = REPEAT then [] else [applyLeaf r c]) \<and>
         path (snd (resume (StartDelay p) s')) = path s' \<and>
         published (snd (resume (StartDelay p) s')) = published s' \<and>
         path (handleStop s') = path s'"
proof -
  let ?s1 = "resetPosition (s\<lparr>isPlaying := True, stopRef := False\<rparr>)"
  let ?res = "runSequence e (commands s) startRobot (delay e ?s1)"
  from assms have run: "handleRun e s = (snd ?res)\<lparr>isPlaying := False\<rparr>"
    by (simp add: handleRun_def Let_def startRobot_def)
  from engine_covers(3) [of "commands s" startRobot "delay e ?s1" e]
  obtain d where d: "prefix d (leaves (commands s))" "ran startRobot (delay e ?s1) d ?res"
    "\<not> stopRef (snd ?res) \<longrightarrow> d = leaves (commands s)"
    unfolding covers_def by blast
  have "\<exists>done. prefix done (leaves (commands s)) \<and>
           path (handleRun e s) = startPoint # samples startRobot done \<and>
           published (handleRun e s) = published s @ startRobot # poses startRobot done \<and>
           length (samples startRobot done) = length (filter isMove done) \<and>
           length (poses startRobot done) = length done \<and>
           (\<not> stopRef (handleRun e s) \<longrightarrow> done = leaves (commands s))"
    using d unfolding run ran_def
    by (intro exI [of _ d]) (simp add: length_samples length_poses)
  then show ?thesis
    by (simp add: engine_grows resume_step resume_start handleStop_def)
qed

theorem run_appends_one_point_per_movement_witness:
  "path (handleRun neverStopped
      (initialApp\<lparr>commands :=
         [Command ''f'' FORWARD 2 None,
          Command ''r'' REPEAT 2
            (Some [Command ''t'' TURN_RIGHT 90 None, Command ''g'' FORWARD 1 None])]\<rparr>)) =
     startPoint #
     samples startRobot
       [Command ''f'' FORWARD 2 None,
        Command ''t'' TURN_RIGHT 90 None, Command ''g'' FORWARD 1 None,
        Command ''t'' TURN_RIGHT 90 None, Command ''g'' FORWARD 1 None] \<and>
   length (path (handleRun neverStopped
      (initialApp\<lparr>commands :=
         [Command ''f'' FORWARD 2 None,
          Command ''r'' REPEAT 2
            (Some [Command ''t'' TURN_RIGHT 90 None, Command ''g'' FORWARD 1 None])]\<rparr>))) = 4 \<and>
   length (published (handleRun neverStopped
      (initialApp\<lparr>commands :=
         [Command ''f'' FORWARD 2 None,
          Command ''r'' REPEAT 2
            (Some [Command ''t'' TURN_RIGHT 90 None, Command ''g'' FORWARD 1 None])]\<rparr>))) = 6"
proof -
  let ?p = "[Command ''f'' FORWARD 2 None,
          Command ''r'' REPEAT 2
            (Some [Command ''t'' TURN_RIGHT 90 None, Command ''g'' FORWARD 1 None])]"
  let ?s = "initialApp\<lparr>commands := ?p\<rparr>"
  have ne: "commands ?s \<noteq> []"
    by simp
  have run: "\<not> stopRef (handleRun neverStopped ?s)"
    by (rule handleRun_never_stops)
  have lv: "leaves (commands ?s) =
      [Command ''f'' FORWARD 2 None,
        Command ''t'' TURN_RIGHT 90 None, Command ''g'' FORWARD 1 None,
        Command ''t'' TURN_RIGHT 90 None, Command ''g'' FORWARD 1 None]"
    by (simp add: numeral_2_eq_2)
  from run_appends_one_point_per_movement [OF ne, of neverStopped] run show ?thesis
    unfolding lv by (auto simp add: isMove_def initialApp_def)
qed

subsection \<open>Starting a run\<close>

text \<open>
  On an empty program \<^verbatim>\<open>handleRun\<close> returns at its guard: no state changes and
  nothing is run. While \<^verbatim>\<open>isPlaying\<close> is true there is no run button to click.
\<close>

lemma start_on_empty_program:
  "commands s = [] \<Longrightarrow> handleRun e s = s \<and> beginRun s = (None, s)"
  by (simp add: handleRun_def beginRun_def)

lemma no_start_while_playing:
  "isPlaying (app m) \<or> commands (app m) = [] \<Longrightarrow> react ClickRun m = m"
  by auto

text \<open>
  Claim C3 holds for the empty program and fails for a run in progress.
  \<^verbatim>\<open>handleRun\<close> has no guard of its own against a second run; the component relies on
  \<^verbatim>\<open>isPlaying\<close>, which swaps the run button for the stop button. But \<^verbatim>\<open>handleStop\<close>
  sets \<^verbatim>\<open>isPlaying\<close> to false at once, while the stopped run is still suspended in the
  delay of its current command. In \<open>stoppedSession\<close> that call is pending, the run
  button is back, and a click on it is not a no-op: it resets the path and the robot,
  clears the stop flag and starts a second call. The first run then finds the flag
  clear when its timer fires, and both runs execute the whole program, into the same
  path: five points at the end, where one run of this program draws three.
\<close>

theorem start_during_stopped_run_is_not_a_noop:
  "pending stoppedSession =
     [StepDelay (Command ''f'' FORWARD 1 None) startRobot
        [SequenceFrame [Command ''g'' FORWARD 1 None]]] \<and>
   \<not> isPlaying (app stoppedSession) \<and> stopRef (app stoppedSession) \<and>
   react ClickRun stoppedSession \<noteq> stoppedSession \<and>
   isPlaying (app (react ClickRun stoppedSession)) \<and>
   \<not> stopRef (app (react ClickRun stoppedSession)) \<and>
   path (app (react ClickRun stoppedSession)) = [startPoint] \<and>
   length (pending (react ClickRun stoppedSession)) = 2 \<and>
   pending (reactAll [ClickRun, TimerFires, TimerFires, TimerFires, TimerFires, TimerFires]
      stoppedSession) = [] \<and>
   length (path (app
     (reactAll [ClickRun, TimerFires, TimerFires, TimerFires, TimerFires, TimerFires]
        stoppedSession))) = 5 \<and>
   length (path (handleRun neverStopped
     (initialApp\<lparr>commands :=
        [Command ''f'' FORWARD 1 None, Command ''g'' FORWARD 1 None]\<rparr>))) = 3"
  by (simp add: stoppedSession_def beginRun_def resume_def startRobot_def run_eval)

end
